theory Spec2Isabelle
  imports Main "HOL-Library.Sublist"
begin

section \<open>The task runner of \<^verbatim>\<open>src/common/task_runner.hpp\<close>\<close>

text \<open>
  The header declares the class \<^verbatim>\<open>TaskRunner\<close>: the members \<^verbatim>\<open>mEventFd[2]\<close>,
  \<^verbatim>\<open>mTaskQueue\<close> and \<^verbatim>\<open>mTaskQueueMutex\<close>, the methods \<^verbatim>\<open>Post\<close>, \<^verbatim>\<open>UpdateFdSet\<close>,
  \<^verbatim>\<open>Process\<close>, \<^verbatim>\<open>PushTask\<close> and \<^verbatim>\<open>PopTasks\<close> (declarations only), and the one method
  whose body is in the header:

  \<^verbatim>\<open>
  template <class T> T PostAndWait(const Task<T> &aTask)
  {
      std::promise<T> pro;
      Post([&]() { pro.set_value(aTask()); });
      return pro.get_future().get();
  }
  \<close>

  The runner is used by several threads at once, so the embedding is an interleaving
  semantics: a state of the whole system, and a function \<open>step i\<close> that lets thread
  \<open>i\<close> take its next atomic action. Everything done while \<^verbatim>\<open>mTaskQueueMutex\<close> is held
  is one atomic action; a read or a write of the wakeup descriptor is one atomic action.
  Thread \<open>0\<close> is the mainloop thread.
\<close>

subsection \<open>Tasks\<close>

type_synonym tid = nat

text \<open>The identity of a \<^verbatim>\<open>std::promise\<close> object: its index in the store of promises.\<close>

type_synonym pid = nat

text \<open>
  \<^verbatim>\<open>Task<T> = std::function<T(void)>\<close> is opaque to the runner. What a callable can do
  that the runner can observe is: write to memory shared with other threads (\<open>Effect n\<close>
  appends the label \<open>n\<close> to the record of writes), throw, and call the runner's own
  \<^verbatim>\<open>Post\<close> and \<^verbatim>\<open>PostAndWait\<close>. A callable is the list of these actions in program
  order; a \<^verbatim>\<open>Task<T>\<close> is such a body together with the value it returns.
\<close>

datatype 'v call =
    Effect nat
  | Throw
  | CallPost "'v call list"
  | CallPostAndWait "'v call list" 'v

text \<open>
  The elements of \<^verbatim>\<open>mTaskQueue\<close> are \<^verbatim>\<open>Task<void>\<close> closures. Two kinds are ever
  posted: a caller's own task, and the lambda \<^verbatim>\<open>[&]() { pro.set_value(aTask()); }\<close> of
  \<^verbatim>\<open>PostAndWait\<close>, which captures the promise and the task by reference.
\<close>

datatype 'v closure =
    Plain "'v call list"
  | Wrapper pid "'v call list" 'v

text \<open>
  The atomic actions of a call in progress. \<open>Run c\<close> is a statement of user code still
  to be executed; the others are the steps of the runner's methods.
\<close>

datatype 'v op =
    Run "'v call"
  | PushTask "'v closure"
  | Signal
  | FutureGet pid
  | SetValue pid 'v

text \<open>
  Modelled from the spec: the type \<^verbatim>\<open>otSysMainloopContext\<close> is declared in
  \<^verbatim>\<open>common/mainloop.h\<close>, which is not among the sources. The spec describes it as a
  read-descriptor set, a write-interest set and a maximum-wait timeout.
\<close>

record otSysMainloopContext =
  mReadFdSet :: "int set"
  mWriteFdSet :: "int set"
  mTimeout :: nat

text \<open>What the mainloop thread's own program may call: user code, or \<^verbatim>\<open>Process\<close>.\<close>

datatype 'v mcall =
    Call "'v call"
  | CallProcess otSysMainloopContext

subsection \<open>State\<close>

text \<open>
  The states of one \<^verbatim>\<open>Process\<close> call, as the spec's state machine names them
  (the readiness check is the step that leaves \<open>Idle\<close>).
\<close>

datatype phase = Idle | ConsumeSignal | SnapshotAndClearQueue | ExecuteEach

text \<open>
  A thread: the calls it still has to make (\<open>prog\<close>), the atomic actions left of the
  call or task it is executing (\<open>cur\<close>), where it is in \<^verbatim>\<open>Process\<close> (\<open>phase\<close>) and the
  tasks \<^verbatim>\<open>Process\<close> has swapped out of the queue and not yet executed (\<open>batch\<close>), the
  values its \<^verbatim>\<open>PostAndWait\<close> calls have returned, each with the promise it came from
  (\<open>results\<close>), and the number of exceptions that have propagated out of \<^verbatim>\<open>Process\<close>
  or out of the thread's top-level code (\<open>thrown\<close>).
\<close>

record 'v thread =
  prog :: "'v mcall list"
  cur :: "'v op list"
  phase :: phase
  batch :: "(tid \<times> 'v closure) list"
  results :: "(pid \<times> 'v) list"
  thrown :: nat

text \<open>
  The system. \<open>mEventFd\<close> and \<open>mTaskQueue\<close> are the members of the class; \<open>signaled\<close>
  is the state of the wakeup channel behind \<open>mEventFd\<close>, which the spec defines as
  binary (signaled or quiescent). Every queue entry carries the thread that posted it.
  \<open>promises\<close> holds the state of every \<^verbatim>\<open>std::promise\<close> constructed so far (\<open>None\<close>:
  no value set yet), \<open>memory\<close> the writes of user code in the order they happened.

  The fields \<open>hOwner\<close>, \<open>hPosted\<close>, \<open>hSwaps\<close> and \<open>hRuns\<close> are history variables: no step
  reads them. \<open>hOwner ! p\<close> is the thread, task body and return value of the
  \<^verbatim>\<open>PostAndWait\<close> call that constructed promise \<open>p\<close>; \<open>hPosted\<close> lists every task
  appended to the queue, in the order of the appends; \<open>hSwaps\<close> lists, per
  \<^verbatim>\<open>Process\<close> call, what that call swapped out of the queue; \<open>hRuns\<close> lists, per
  \<^verbatim>\<open>Process\<close> call, the tasks whose execution that call has started, in that order.
\<close>

record 'v system =
  mEventFd :: "nat \<Rightarrow> int"
  mTaskQueue :: "(tid \<times> 'v closure) list"
  signaled :: bool
  promises :: "'v option list"
  memory :: "nat list"
  threads :: "'v thread list"
  hOwner :: "(tid \<times> 'v call list \<times> 'v) list"
  hPosted :: "(tid \<times> 'v closure) list"
  hSwaps :: "(tid \<times> 'v closure) list list"
  hRuns :: "(tid \<times> 'v closure) list list"

text \<open>The enumerators \<^verbatim>\<open>kRead = 0, kWrite = 1\<close> of the class.\<close>

definition kRead :: nat where
  "kRead = 0"

definition kWrite :: nat where
  "kWrite = 1"

subsection \<open>The methods\<close>

text \<open>
  Modelled from the spec: the body of \<^verbatim>\<open>Post\<close> is in \<^verbatim>\<open>task_runner.cpp\<close>, which is
  not among the sources. The spec: \<^verbatim>\<open>Post\<close> appends the task to the queue under the
  lock, then signals the wakeup channel.
\<close>

definition Post :: "'v closure \<Rightarrow> 'v op list" where
  "Post aTask = [PushTask aTask, Signal]"

text \<open>
  \<^verbatim>\<open>PostAndWait\<close>, from the header. \<open>pro\<close> is the promise the call has constructed,
  \<open>aTask\<close> and \<open>v\<close> the task's body and the value it returns: the lambda is posted, then
  the caller waits in \<^verbatim>\<open>get()\<close>.
\<close>

definition PostAndWait :: "pid \<Rightarrow> 'v call list \<Rightarrow> 'v \<Rightarrow> 'v op list" where
  "PostAndWait pro aTask v = Post (Wrapper pro aTask v) @ [FutureGet pro]"

text \<open>
  Invoking a closure. The lambda of \<^verbatim>\<open>PostAndWait\<close> evaluates \<^verbatim>\<open>aTask()\<close> first and
  calls \<^verbatim>\<open>pro.set_value\<close> with the result; it has no handler, so if \<^verbatim>\<open>aTask()\<close>
  throws, \<^verbatim>\<open>set_value\<close> is not reached.
\<close>

fun invoke :: "'v closure \<Rightarrow> 'v op list" where
  "invoke (Plain body) = map Run body"
| "invoke (Wrapper pro aTask v) = map Run aTask @ [SetValue pro v]"

definition upd :: "tid \<Rightarrow> ('v thread \<Rightarrow> 'v thread) \<Rightarrow> 'v system \<Rightarrow> 'v system" where
  "upd i f s = s\<lparr>threads := (threads s)[i := f (threads s ! i)]\<rparr>"

text \<open>
  An exception in thread \<open>i\<close>. Modelled from the spec: \<^verbatim>\<open>Process\<close> has no recovery
  boundary, so an exception thrown by a task leaves \<^verbatim>\<open>Process\<close>: the rest of the task
  and the swapped-out tasks not yet executed are destroyed with the frame, and the
  caller of \<^verbatim>\<open>Process\<close> goes on with whatever it does next. An exception in a thread's
  top-level code ends the thread.
\<close>

definition raise :: "tid \<Rightarrow> 'v system \<Rightarrow> 'v system" where
  "raise i s = upd i (\<lambda>t.
     if phase t = ExecuteEach
     then t\<lparr>cur := [], phase := Idle, batch := [], thrown := Suc (thrown t)\<rparr>
     else t\<lparr>prog := [], cur := [], thrown := Suc (thrown t)\<rparr>) s"

text \<open>
  One atomic action \<open>x\<close> of thread \<open>i\<close>, with \<open>rest\<close> the actions after it.
  \<^item> \<open>Run (CallPost body)\<close> enters \<^verbatim>\<open>Post\<close>; \<open>Run (CallPostAndWait aTask v)\<close> enters
    \<^verbatim>\<open>PostAndWait\<close> and constructs the promise.
  \<^item> \<open>PushTask\<close> is the append under the lock, \<open>Signal\<close> the write to the channel.
  \<^item> \<open>FutureGet p\<close> is \<^verbatim>\<open>pro.get_future().get()\<close>: it returns the value once the
    promise has one, and until then the thread waits (the state does not change).
  \<^item> \<open>SetValue p v\<close> is \<^verbatim>\<open>pro.set_value(v)\<close>; on a promise that already has a value
    it throws (\<^verbatim>\<open>std::future_error\<close>).
\<close>

fun do_op :: "tid \<Rightarrow> 'v op \<Rightarrow> 'v op list \<Rightarrow> 'v system \<Rightarrow> 'v system" where
  "do_op i (Run (Effect n)) rest s =
     upd i (\<lambda>t. t\<lparr>cur := rest\<rparr>) (s\<lparr>memory := memory s @ [n]\<rparr>)"
| "do_op i (Run Throw) rest s = raise i s"
| "do_op i (Run (CallPost body)) rest s =
     upd i (\<lambda>t. t\<lparr>cur := Post (Plain body) @ rest\<rparr>) s"
| "do_op i (Run (CallPostAndWait aTask v)) rest s =
     upd i (\<lambda>t. t\<lparr>cur := PostAndWait (length (promises s)) aTask v @ rest\<rparr>)
       (s\<lparr>promises := promises s @ [None], hOwner := hOwner s @ [(i, aTask, v)]\<rparr>)"
| "do_op i (PushTask c) rest s =
     upd i (\<lambda>t. t\<lparr>cur := rest\<rparr>)
       (s\<lparr>mTaskQueue := mTaskQueue s @ [(i, c)], hPosted := hPosted s @ [(i, c)]\<rparr>)"
| "do_op i Signal rest s =
     upd i (\<lambda>t. t\<lparr>cur := rest\<rparr>) (s\<lparr>signaled := True\<rparr>)"
| "do_op i (FutureGet p) rest s =
     (if p < length (promises s)
      then (case promises s ! p of
              None \<Rightarrow> s
            | Some v \<Rightarrow> upd i (\<lambda>t. t\<lparr>cur := rest, results := results t @ [(p, v)]\<rparr>) s)
      else s)"
| "do_op i (SetValue p v) rest s =
     (if p < length (promises s) \<and> promises s ! p = None
      then upd i (\<lambda>t. t\<lparr>cur := rest\<rparr>) (s\<lparr>promises := (promises s)[p := Some v]\<rparr>)
      else raise i s)"

text \<open>Appending to the last list of a list of lists.\<close>

definition snoc_last :: "'a \<Rightarrow> 'a list list \<Rightarrow> 'a list list" where
  "snoc_last x xss = (if xss = [] then [[x]] else butlast xss @ [last xss @ [x]])"

text \<open>
  Modelled from the spec: the body of \<^verbatim>\<open>Process\<close> is in \<^verbatim>\<open>task_runner.cpp\<close>, which
  is not among the sources. The spec: if the reactor reports the channel's read
  descriptor as ready, consume the signal; then swap out the entire contents of the
  queue under the lock and execute each task in order, one at a time, to completion.
  \<open>Process_enter\<close> is the readiness check on the context the caller supplies;
  \<open>Process_step i t s\<close> is the next action of thread \<open>i\<close> (whose record is \<open>t\<close>) inside
  \<^verbatim>\<open>Process\<close> when no task is in progress: consume the signal, swap the queue out,
  invoke the next task of the batch, or return when the batch is empty.
\<close>

definition Process_enter :: "'v system \<Rightarrow> otSysMainloopContext \<Rightarrow> phase" where
  "Process_enter s aMainloop =
     (if mEventFd s kRead \<in> mReadFdSet aMainloop then ConsumeSignal
      else SnapshotAndClearQueue)"

definition Process_step :: "tid \<Rightarrow> 'v thread \<Rightarrow> 'v system \<Rightarrow> 'v system" where
  "Process_step i t s =
     (case phase t of
        Idle \<Rightarrow> s
      | ConsumeSignal \<Rightarrow>
          upd i (\<lambda>t. t\<lparr>phase := SnapshotAndClearQueue\<rparr>) (s\<lparr>signaled := False\<rparr>)
      | SnapshotAndClearQueue \<Rightarrow>
          upd i (\<lambda>t. t\<lparr>phase := ExecuteEach, batch := mTaskQueue s\<rparr>)
            (s\<lparr>mTaskQueue := [], hSwaps := hSwaps s @ [mTaskQueue s],
               hRuns := hRuns s @ [[]]\<rparr>)
      | ExecuteEach \<Rightarrow>
          (case batch t of
             [] \<Rightarrow> upd i (\<lambda>t. t\<lparr>phase := Idle\<rparr>) s
           | x # b \<Rightarrow>
               upd i (\<lambda>t. t\<lparr>cur := invoke (snd x), batch := b\<rparr>)
                 (s\<lparr>hRuns := snoc_last x (hRuns s)\<rparr>)))"

text \<open>
  A thread that is in no call takes the next call of its program: user code starts to
  run, \<^verbatim>\<open>Process\<close> makes its readiness check. A thread whose program is over does
  nothing.
\<close>

definition next_call :: "tid \<Rightarrow> 'v thread \<Rightarrow> 'v system \<Rightarrow> 'v system" where
  "next_call i t s =
     (case prog t of
        [] \<Rightarrow> s
      | Call c # p \<Rightarrow> upd i (\<lambda>t. t\<lparr>prog := p, cur := [Run c]\<rparr>) s
      | CallProcess aMainloop # p \<Rightarrow>
          upd i (\<lambda>t. t\<lparr>prog := p, phase := Process_enter s aMainloop\<rparr>) s)"

text \<open>
  One step of thread \<open>i\<close>: the next action of the call or task in progress, and
  otherwise the next action of \<^verbatim>\<open>Process\<close> or the next call. A thread that does not
  exist does nothing.
\<close>

definition step :: "tid \<Rightarrow> 'v system \<Rightarrow> 'v system" where
  "step i s =
     (if i < length (threads s)
      then (case cur (threads s ! i) of
              [] \<Rightarrow>
                (if phase (threads s ! i) = Idle then next_call i (threads s ! i) s
                 else Process_step i (threads s ! i) s)
            | x # rest \<Rightarrow> do_op i x rest s)
      else s)"

text \<open>A schedule is the list of the threads that step, in order.\<close>

definition exec :: "tid list \<Rightarrow> 'v system \<Rightarrow> 'v system" where
  "exec sched s = foldl (\<lambda>s i. step i s) s sched"

definition new_thread :: "'v mcall list \<Rightarrow> 'v thread" where
  "new_thread p =
     \<lparr>prog = p, cur = [], phase = Idle, batch = [], results = [], thrown = 0\<rparr>"

text \<open>
  The system after the constructor: the descriptors \<open>fds\<close>, an empty queue, a quiescent
  channel. The mainloop thread runs \<open>mprog\<close>; the other threads run user code only
  (\<^verbatim>\<open>Process\<close> is called on the mainloop thread only).
\<close>

definition init :: "(nat \<Rightarrow> int) \<Rightarrow> 'v mcall list \<Rightarrow> 'v call list list \<Rightarrow> 'v system" where
  "init fds mprog wprogs =
     \<lparr>mEventFd = fds, mTaskQueue = [], signaled = False, promises = [], memory = [],
      threads = new_thread mprog # map (\<lambda>p. new_thread (map Call p)) wprogs,
      hOwner = [], hPosted = [], hSwaps = [], hRuns = []\<rparr>"

section \<open>Invariants\<close>

text \<open>
  The predicates on states and the auxiliary functions of the proofs below. Each
  invariant holds in the initial state and is kept by every step of every thread.
\<close>

text \<open>
  The shape of the actions left of a call in progress. \<open>user_tail\<close>: statements of user
  code, closed by the \<^verbatim>\<open>set_value\<close> of a wrapper when a wrapper is being executed.
  \<open>get_ok\<close>: at most one \<^verbatim>\<open>get()\<close> in front of that; \<open>sig_ok\<close> and \<open>cur_ok\<close>: at
  most one \<^verbatim>\<open>Post\<close> in progress in front of that, at its signal or at its append.
  A \<open>worker\<close> is a thread that is never inside \<^verbatim>\<open>Process\<close>: it calls user code only
  and executes no wrapper. \<open>wf\<close> collects the shape of all threads: the mainloop
  thread holds a batch only while it executes tasks, it has no call in progress while
  it consumes the signal or swaps the queue, and every other thread is a worker.
\<close>

fun user_tail :: "'v op list \<Rightarrow> bool" where
  "user_tail [] = True"
| "user_tail (Run c # xs) = user_tail xs"
| "user_tail [SetValue p v] = True"
| "user_tail (x # xs) = False"

definition get_ok :: "'v op list \<Rightarrow> bool" where
  "get_ok xs = (case xs of FutureGet p # ys \<Rightarrow> user_tail ys | _ \<Rightarrow> user_tail xs)"

definition sig_ok :: "'v op list \<Rightarrow> bool" where
  "sig_ok xs = (case xs of Signal # ys \<Rightarrow> get_ok ys | _ \<Rightarrow> get_ok xs)"

definition cur_ok :: "'v op list \<Rightarrow> bool" where
  "cur_ok xs = (case xs of PushTask c # ys \<Rightarrow> (case ys of Signal # zs \<Rightarrow> get_ok zs | _ \<Rightarrow> False)
                 | _ \<Rightarrow> sig_ok xs)"

fun is_Call :: "'v mcall \<Rightarrow> bool" where
  "is_Call (Call c) = True"
| "is_Call (CallProcess a) = False"

fun is_SetValue :: "'v op \<Rightarrow> bool" where
  "is_SetValue (SetValue p v) = True"
| "is_SetValue x = False"

definition worker :: "'v thread \<Rightarrow> bool" where
  "worker t \<longleftrightarrow> phase t = Idle \<and> list_all is_Call (prog t) \<and> \<not> list_ex is_SetValue (cur t)"

definition twf :: "tid \<Rightarrow> 'v thread \<Rightarrow> bool" where
  "twf i t \<longleftrightarrow> cur_ok (cur t) \<and> (phase t \<noteq> ExecuteEach \<longrightarrow> batch t = [])
     \<and> (phase t = ConsumeSignal \<or> phase t = SnapshotAndClearQueue \<longrightarrow> cur t = [])
     \<and> (0 < i \<longrightarrow> worker t)"

definition wf :: "'v system \<Rightarrow> bool" where
  "wf s \<longleftrightarrow> threads s \<noteq> [] \<and> length (hOwner s) = length (promises s)
     \<and> (\<forall>i < length (threads s). twf i (threads s ! i))"

text \<open>
  The wakeup invariant: a non-empty queue is never left without a wakeup on its way.
  Either the channel is signaled, or some thread is inside \<^verbatim>\<open>Post\<close> between its append
  and its signal, or the mainloop thread is inside \<^verbatim>\<open>Process\<close> between consuming the
  signal and swapping the queue out.
\<close>

definition wake_inv :: "'v system \<Rightarrow> bool" where
  "wake_inv s \<longleftrightarrow>
     (mTaskQueue s \<noteq> [] \<longrightarrow>
        signaled s
      \<or> (\<exists>i < length (threads s). \<exists>r. cur (threads s ! i) = Signal # r)
      \<or> phase (threads s ! 0) = SnapshotAndClearQueue)"

text \<open>
  The order invariant: the tasks whose execution has started, then the tasks swapped out
  and waiting in the mainloop thread's batch, then the queue, read in this order, are
  tasks of \<open>hPosted\<close> in the order of \<open>hPosted\<close>.
\<close>

definition order_inv :: "'v system \<Rightarrow> bool" where
  "order_inv s \<longleftrightarrow> subseq (concat (hRuns s) @ batch (threads s ! 0) @ mTaskQueue s) (hPosted s)"

text \<open>
  The exact invariant, as long as no exception has left the mainloop thread: the three
  lists together are \<open>hPosted\<close>, and every \<^verbatim>\<open>Process\<close> call has executed what it
  swapped out (the call in progress: what it has executed and what is left in its batch).
\<close>

definition fifo_inv :: "'v system \<Rightarrow> bool" where
  "fifo_inv s \<longleftrightarrow>
     (thrown (threads s ! 0) = 0 \<longrightarrow>
        concat (hRuns s) @ batch (threads s ! 0) @ mTaskQueue s = hPosted s
      \<and> (if phase (threads s ! 0) = ExecuteEach
         then hRuns s \<noteq> [] \<and> butlast (hRuns s) @ [last (hRuns s) @ batch (threads s ! 0)] = hSwaps s
         else hRuns s = hSwaps s))"

text \<open>The tasks a piece of user code posts with \<^verbatim>\<open>Post\<close>, in program order.\<close>

fun posts_call :: "'v call \<Rightarrow> 'v closure list" where
  "posts_call (CallPost body) = [Plain body]"
| "posts_call c = []"



fun is_Plain :: "'v closure \<Rightarrow> bool" where
  "is_Plain (Plain body) = True"
| "is_Plain (Wrapper pro aTask v) = False"

text \<open>The tasks of a list of queue entries that thread \<open>i\<close> posted with \<^verbatim>\<open>Post\<close>.\<close>

definition plain_by :: "tid \<Rightarrow> (tid \<times> 'v closure) list \<Rightarrow> 'v closure list" where
  "plain_by i xs = map snd (filter (\<lambda>x. fst x = i \<and> is_Plain (snd x)) xs)"


text \<open>
  Every \<^verbatim>\<open>Process\<close> call executes tasks it took, in the order it took them; for the
  call in progress, what it has executed and what is left in its batch is what it took.
\<close>

definition calls_inv :: "'v system \<Rightarrow> bool" where
  "calls_inv s \<longleftrightarrow>
     list_all2 prefix (hRuns s) (hSwaps s)
   \<and> (phase (threads s ! 0) = ExecuteEach \<longrightarrow>
        hRuns s \<noteq> [] \<and> last (hRuns s) @ batch (threads s ! 0) = last (hSwaps s))"

text \<open>
  Ownership of promises. A wrapper closure that has been appended to the queue, or is
  about to be, belongs to the \<^verbatim>\<open>PostAndWait\<close> call that constructed its promise: it
  carries that call's task and return value and was posted by that call's thread. A
  thread waits only for promises it has constructed itself.
\<close>

definition own_inv :: "'v system \<Rightarrow> bool" where
  "own_inv s \<longleftrightarrow>
     (\<forall>j p b v. (j, Wrapper p b v) \<in> set (hPosted s) \<longrightarrow>
        p < length (hOwner s) \<and> hOwner s ! p = (j, b, v))
   \<and> (\<forall>i < length (threads s). \<forall>p b v. PushTask (Wrapper p b v) \<in> set (cur (threads s ! i)) \<longrightarrow>
        p < length (hOwner s) \<and> hOwner s ! p = (i, b, v))
   \<and> (\<forall>i < length (threads s). \<forall>p. FutureGet p \<in> set (cur (threads s ! i)) \<longrightarrow>
        p < length (hOwner s) \<and> fst (hOwner s ! p) = i)"

text \<open>The writes of a task body's own statements, in program order.\<close>

fun effect_of :: "'v call \<Rightarrow> nat list" where
  "effect_of (Effect n) = [n]"
| "effect_of c = []"

definition effects :: "'v call list \<Rightarrow> nat list" where
  "effects body = concat (map effect_of body)"

fun pending_op :: "'v op \<Rightarrow> nat list" where
  "pending_op (Run c) = effect_of c"
| "pending_op x = []"

definition pending :: "'v op list \<Rightarrow> nat list" where
  "pending xs = concat (map pending_op xs)"

text \<open>
  \<open>delivered s p v extra\<close>: promise \<open>p\<close> was constructed by a \<^verbatim>\<open>PostAndWait\<close> call whose
  task returns \<open>v\<close>, the execution of its wrapper has started, and the writes of the
  task's body are in memory, but for those listed in \<open>extra\<close>.
\<close>

definition delivered :: "'v system \<Rightarrow> pid \<Rightarrow> 'v \<Rightarrow> nat list \<Rightarrow> bool" where
  "delivered s p v extra \<longleftrightarrow>
     p < length (hOwner s)
   \<and> (\<exists>j b. hOwner s ! p = (j, b, v) \<and> (j, Wrapper p b v) \<in> set (concat (hRuns s))
        \<and> subseq (effects b) (memory s @ extra))"

definition val_inv :: "'v system \<Rightarrow> bool" where
  "val_inv s \<longleftrightarrow>
     (\<forall>i < length (threads s). \<forall>p v. SetValue p v \<in> set (cur (threads s ! i)) \<longrightarrow>
        delivered s p v (pending (cur (threads s ! i))))
   \<and> (\<forall>p v. p < length (promises s) \<and> promises s ! p = Some v \<longrightarrow> delivered s p v [])
   \<and> (\<forall>i < length (threads s). \<forall>p v. (p, v) \<in> set (results (threads s ! i)) \<longrightarrow>
        p < length (promises s) \<and> promises s ! p = Some v \<and> fst (hOwner s ! p) = i)"

text \<open>A promise the mainloop thread waits for, or is about to wait for, has no value.\<close>

definition get_inv :: "'v system \<Rightarrow> bool" where
  "get_inv s \<longleftrightarrow>
     (\<forall>p. FutureGet p \<in> set (cur (threads s ! 0)) \<longrightarrow>
        p < length (promises s) \<and> promises s ! p = None)"

text \<open>The task given to the \<^verbatim>\<open>PostAndWait\<close> call that constructed promise \<open>p\<close> throws.\<close>

definition throws :: "'v system \<Rightarrow> pid \<Rightarrow> bool" where
  "throws s p \<longleftrightarrow> Throw \<in> set (fst (snd (hOwner s ! p)))"

text \<open>
  While the wrapper of a throwing task is being executed, the throw is ahead of the
  \<^verbatim>\<open>set_value\<close>; the promise of a throwing task has no value; and once the wrapper of a
  throwing task has been started, either its throw is still ahead or an exception has
  left the mainloop thread.
\<close>

definition throw_inv :: "'v system \<Rightarrow> bool" where
  "throw_inv s \<longleftrightarrow>
     (\<forall>i < length (threads s). \<forall>p v. SetValue p v \<in> set (cur (threads s ! i)) \<and> throws s p \<longrightarrow>
        Run Throw \<in> set (cur (threads s ! i)))
   \<and> (\<forall>p. p < length (promises s) \<and> throws s p \<longrightarrow> promises s ! p = None)
   \<and> (\<forall>j p b v. (j, Wrapper p b v) \<in> set (concat (hRuns s)) \<and> Throw \<in> set b \<longrightarrow>
        Run Throw \<in> set (cur (threads s ! 0)) \<or> 0 < thrown (threads s ! 0))"

text \<open>The closure is the wrapper of promise \<open>p\<close>.\<close>

fun wraps :: "pid \<Rightarrow> 'v closure \<Rightarrow> bool" where
  "wraps p (Wrapper pro aTask v) = (pro = p)"
| "wraps p (Plain body) = False"

text \<open>How many entries of a list of queue entries are wrappers of promise \<open>p\<close>.\<close>

definition slots :: "pid \<Rightarrow> (tid \<times> 'v closure) list \<Rightarrow> nat" where
  "slots p xs = length (filter (\<lambda>x. wraps p (snd x)) xs)"

definition no_push :: "'v op list \<Rightarrow> bool" where
  "no_push xs \<longleftrightarrow> (\<forall>c. PushTask c \<notin> set xs)"

text \<open>
  A promise has at most one wrapper among the tasks appended so far: none while the
  append of its wrapper is still ahead, and exactly one when its thread has appended
  and is waiting. A promise not yet constructed has none.
\<close>

definition slot_inv :: "'v system \<Rightarrow> bool" where
  "slot_inv s \<longleftrightarrow>
     (\<forall>p. slots p (hPosted s) \<le> 1)
   \<and> (\<forall>i < length (threads s). \<forall>c p. PushTask c \<in> set (cur (threads s ! i)) \<and> wraps p c \<longrightarrow>
        slots p (hPosted s) = 0)
   \<and> (\<forall>i < length (threads s). \<forall>p. FutureGet p \<in> set (cur (threads s ! i)) \<longrightarrow>
        (\<forall>c. PushTask c \<in> set (cur (threads s ! i)) \<longrightarrow> wraps p c)
      \<and> (no_push (cur (threads s ! i)) \<longrightarrow> slots p (hPosted s) = 1))
   \<and> (\<forall>p. length (promises s) \<le> p \<longrightarrow> slots p (hPosted s) = 0)"

text \<open>
  User code that runs through: it writes and posts, and neither throws nor waits.
  \<open>cost\<close> is the number of steps a statement takes (\<^verbatim>\<open>Post\<close>: enter, append, signal).
\<close>

fun runs_through :: "'v call \<Rightarrow> bool" where
  "runs_through (Effect n) = True"
| "runs_through (CallPost body) = True"
| "runs_through c = False"

fun cost :: "'v call \<Rightarrow> nat" where
  "cost (CallPost body) = 3"
| "cost c = 1"

definition body_cost :: "'v call list \<Rightarrow> nat" where
  "body_cost body = sum_list (map cost body)"

definition body_posts :: "'v call list \<Rightarrow> 'v closure list" where
  "body_posts body = concat (map posts_call body)"

text \<open>The task a closure invokes.\<close>

fun task_body :: "'v closure \<Rightarrow> 'v call list" where
  "task_body (Plain body) = body"
| "task_body (Wrapper pro aTask v) = aTask"

text \<open>
  The steps the mainloop thread takes for a closure that runs through: the invocation,
  the body and, for a wrapper, \<^verbatim>\<open>set_value\<close>; and for a list of queue entries.
\<close>

fun closure_cost :: "'v closure \<Rightarrow> nat" where
  "closure_cost (Plain body) = Suc (body_cost body)"
| "closure_cost (Wrapper pro aTask v) = Suc (Suc (body_cost aTask))"

definition queue_cost :: "(tid \<times> 'v closure) list \<Rightarrow> nat" where
  "queue_cost xs = sum_list (map (\<lambda>x. closure_cost (snd x)) xs)"



text \<open>The store of promises after the wrappers of a list of queue entries have run.\<close>

fun set_value :: "'v closure \<Rightarrow> 'v option list \<Rightarrow> 'v option list" where
  "set_value (Plain body) ps = ps"
| "set_value (Wrapper pro aTask v) ps = ps[pro := Some v]"

definition set_values :: "(tid \<times> 'v closure) list \<Rightarrow> 'v option list \<Rightarrow> 'v option list" where
  "set_values xs ps = foldl (\<lambda>ps x. set_value (snd x) ps) ps xs"

text \<open>Every task of a list of queue entries runs through.\<close>

definition through :: "(tid \<times> 'v closure) list \<Rightarrow> bool" where
  "through xs = list_all (\<lambda>x. list_all runs_through (task_body (snd x))) xs"


text \<open>
  A \<^verbatim>\<open>set_value\<close> that is still ahead of the mainloop thread finds its promise without
  a value: no promise is set twice.
\<close>

definition once_inv :: "'v system \<Rightarrow> bool" where
  "once_inv s \<longleftrightarrow>
     (\<forall>p v. SetValue p v \<in> set (cur (threads s ! 0)) \<longrightarrow>
        p < length (promises s) \<and> promises s ! p = None)"

text \<open>The mainloop thread executes a wrapper only inside \<^verbatim>\<open>Process\<close>.\<close>

definition inside_inv :: "'v system \<Rightarrow> bool" where
  "inside_inv s \<longleftrightarrow>
     (list_ex is_SetValue (cur (threads s ! 0)) \<longrightarrow> phase (threads s ! 0) = ExecuteEach)"

text \<open>
  The actions of a call in progress that run through, and the steps they take.
  \<open>steps_left\<close> is the number of steps the mainloop thread needs to return from a
  \<^verbatim>\<open>Process\<close> call that is executing its batch; \<open>runs_out\<close> says that it is executing
  its batch and that every action and task it has left runs through.
\<close>

fun op_through :: "'v op \<Rightarrow> bool" where
  "op_through (Run c) = runs_through c"
| "op_through (FutureGet p) = False"
| "op_through x = True"

fun op_cost :: "'v op \<Rightarrow> nat" where
  "op_cost (Run c) = cost c"
| "op_cost x = 1"

definition ops_cost :: "'v op list \<Rightarrow> nat" where
  "ops_cost xs = sum_list (map op_cost xs)"

definition steps_left :: "'v thread \<Rightarrow> nat" where
  "steps_left t = ops_cost (cur t) + queue_cost (batch t) + 1"

definition runs_out :: "'v thread \<Rightarrow> bool" where
  "runs_out t \<longleftrightarrow> phase t = ExecuteEach \<and> list_all op_through (cur t) \<and> through (batch t)"

text \<open>
  \<open>ahead p v t\<close>: the \<^verbatim>\<open>set_value\<close> of promise \<open>p\<close> to \<open>v\<close> is still ahead of thread
  \<open>t\<close>, in the wrapper it is executing or in a wrapper of its batch.
\<close>

fun sets :: "pid \<Rightarrow> 'v \<Rightarrow> 'v closure \<Rightarrow> bool" where
  "sets p v (Wrapper pro aTask w) = (pro = p \<and> w = v)"
| "sets p v (Plain body) = False"

definition ahead :: "pid \<Rightarrow> 'v \<Rightarrow> 'v thread \<Rightarrow> bool" where
  "ahead p v t \<longleftrightarrow> SetValue p v \<in> set (cur t) \<or> list_ex (\<lambda>x. sets p v (snd x)) (batch t)"

text \<open>The invariants above that the proofs of progress use together.\<close>

definition good :: "'v system \<Rightarrow> bool" where
  "good s \<longleftrightarrow> wf s \<and> own_inv s \<and> order_inv s \<and> val_inv s \<and> slot_inv s \<and> once_inv s
     \<and> calls_inv s"

text \<open>The actions of \<^verbatim>\<open>Post\<close> after the call has been entered.\<close>

fun post_op :: "'v op \<Rightarrow> bool" where
  "post_op (PushTask c) = True"
| "post_op Signal = True"
| "post_op x = False"

text \<open>
  A task that throws, once started, ends with an exception that leaves the mainloop
  thread: the tasks that throw among those started are at most as many as the
  exceptions so far, plus the one whose throw is still ahead.
\<close>

definition exc_inv :: "'v system \<Rightarrow> bool" where
  "exc_inv s \<longleftrightarrow>
     length (filter (\<lambda>x. Throw \<in> set (task_body (snd x))) (concat (hRuns s)))
       \<le> thrown (threads s ! 0) + (if Run Throw \<in> set (cur (threads s ! 0)) then 1 else 0)"

text \<open>
  \<open>gone s p\<close>: the wrapper of promise \<open>p\<close> has been appended, it waits neither in the
  queue nor in the batch of the mainloop thread and is not being executed, and the
  promise has no value. The wrapper was taken by a \<^verbatim>\<open>Process\<close> call and discarded.
\<close>

fun sets_of :: "pid \<Rightarrow> 'v op \<Rightarrow> bool" where
  "sets_of p (SetValue pro v) = (pro = p)"
| "sets_of p x = False"


section \<open>Example systems\<close>

text \<open>
  Small systems and schedules on which the theorems below are evaluated. The wakeup
  descriptor is 3 in all of them; \<open>ready\<close> is a context that reports it readable,
  \<open>not_ready\<close> one that does not.
\<close>

definition one_post :: "int system" where
  "one_post = init (\<lambda>k. 3) [] [[CallPost [Effect 5]]]"

definition ready :: otSysMainloopContext where
  "ready = \<lparr>mReadFdSet = {3}, mWriteFdSet = {}, mTimeout = 0\<rparr>"






definition not_ready :: otSysMainloopContext where
  "not_ready = \<lparr>mReadFdSet = {}, mWriteFdSet = {}, mTimeout = 0\<rparr>"

definition idle_system :: "int system" where
  "idle_system = init (\<lambda>k. 3) [CallProcess not_ready] [[CallPost [Effect 1]]]"



definition until_wrapper :: "tid list" where
  "until_wrapper = [1,1,1,1, 0,0,0]"

definition self_wait :: "int system" where
  "self_wait = init (\<lambda>k. 3) [Call (CallPostAndWait [Effect 1] 7), CallProcess ready] [[CallPost []]]"

definition ask_throwing :: "int system" where
  "ask_throwing =
     init (\<lambda>k. 3) [CallProcess ready, CallProcess ready] [[CallPostAndWait [Effect 7, Throw] 42]]"

definition until_thrown :: "tid list" where
  "until_thrown = [1,1,1,1, 0,0,0, 0, 0, 0]"

definition mixed_posts :: "int system" where
  "mixed_posts =
     init (\<lambda>k. 3) [CallProcess ready]
       [[CallPost [Effect 1], CallPostAndWait [Effect 2] 5], [CallPost [Effect 3]]]"


definition until_waiting :: "tid list" where
  "until_waiting = [1,1,1,1, 2,2,2,2, 1,1,1,1]"

definition until_drained :: "tid list" where
  "until_drained = [1,1,1,1, 2,2,2,2, 1,1,1,1, 0,0,0, 0,0, 0,0, 0,0,0, 0]"

text \<open>
  Systems in which a task posts a task, in which a task throws between others, and in
  which the wrapper of a \<^verbatim>\<open>PostAndWait\<close> call waits behind a task that throws; and the
  schedules that stop them at the steps of interest.
\<close>

definition nested_post :: "int system" where
  "nested_post =
     init (\<lambda>k. 3) [CallProcess ready, CallProcess ready] [[CallPost [CallPost [Effect 2]]]]"

definition until_nested :: "tid list" where
  "until_nested = [1,1,1,1, 0,0,0,0]"



definition until_throw :: "tid list" where
  "until_throw = [1,1,1,1, 0,0,0, 0, 0]"
















section \<open>Reachable states and their shape\<close>

lemma exec_Nil: "exec [] s = s" by (simp add: exec_def)

lemma exec_snoc: "exec (sched @ [i]) s = step i (exec sched s)" by (simp add: exec_def)

lemma exec_append: "exec (xs @ ys) s = exec ys (exec xs s)"
  by (simp add: exec_def)

lemma exec_induct:
  assumes "P s0" and "\<And>s i. P s \<Longrightarrow> i < length (threads s) \<Longrightarrow> P (step i s)"
  shows "P (exec sched s0)"
proof (induction sched rule: rev_induct)
  case Nil
  then show ?case using assms(1) by (simp add: exec_Nil)
next
  case (snoc i sched)
  show ?case
  proof (cases "i < length (threads (exec sched s0))")
    case True
    then show ?thesis using snoc assms(2) by (simp add: exec_snoc)
  next
    case False
    then show ?thesis using snoc by (simp add: exec_snoc step_def)
  qed
qed

lemma user_tail_map_Run [simp]: "user_tail (map Run b @ xs) = user_tail xs"
  by (induction b) auto

lemma user_tail_map_Run' [simp]: "user_tail (map Run b)"
  using user_tail_map_Run [of b "[]"] by simp

lemma user_tail_SetValue [simp]: "user_tail (SetValue p v # xs) \<longleftrightarrow> xs = []"
  by (cases xs) auto

lemma get_ok_simps [simp]:
  "get_ok []"
  "get_ok (Run c # xs) = user_tail xs"
  "get_ok (PushTask cl # xs) = False"
  "get_ok (Signal # xs) = False"
  "get_ok (FutureGet p # xs) = user_tail xs"
  "get_ok (SetValue p v # xs) \<longleftrightarrow> xs = []"
  by (simp_all add: get_ok_def)

lemma cur_ok_simps [simp]:
  "cur_ok []"
  "cur_ok (Run c # xs) = user_tail xs"
  "cur_ok (PushTask cl # xs) \<longleftrightarrow> (\<exists>zs. xs = Signal # zs \<and> get_ok zs)"
  "cur_ok (Signal # xs) = get_ok xs"
  "cur_ok (FutureGet p # xs) = user_tail xs"
  "cur_ok (SetValue p v # xs) \<longleftrightarrow> xs = []"
  by (auto simp: cur_ok_def sig_ok_def split: list.splits op.splits)

lemma user_tail_get_ok: "user_tail xs \<Longrightarrow> get_ok xs"
  by (cases xs rule: user_tail.cases) auto

lemma get_ok_cur_ok: "get_ok xs \<Longrightarrow> cur_ok xs"
  by (cases xs rule: user_tail.cases) auto

lemma user_tail_cur_ok: "user_tail xs \<Longrightarrow> cur_ok xs"
  by (simp add: user_tail_get_ok get_ok_cur_ok)

lemma cur_ok_invoke [simp]: "cur_ok (invoke c)"
  by (cases c) (auto intro!: user_tail_cur_ok)

lemma twf_step_thread:
  assumes "twf i (threads s ! i)" "i < length (threads s)"
  shows "twf i (threads (step i s) ! i)"
proof (cases "cur (threads s ! i)")
  case Nil
  then show ?thesis using assms
    by (auto simp: step_def next_call_def Process_step_def twf_def upd_def worker_def Process_enter_def
        split: phase.splits list.splits mcall.splits)
next
  case (Cons x rest)
  then show ?thesis using assms
    by (cases "(i, x, rest, s)" rule: do_op.cases)
       (auto simp: step_def twf_def upd_def raise_def worker_def Post_def PostAndWait_def
        intro: get_ok_cur_ok user_tail_cur_ok user_tail_get_ok split: option.splits)
qed

lemma step_other: "j \<noteq> i \<Longrightarrow> threads (step i s) ! j = threads s ! j"
proof (cases "cur (threads s ! i)")
  case Nil
  assume "j \<noteq> i"
  then show ?thesis using Nil
    by (auto simp: step_def next_call_def Process_step_def upd_def split: phase.splits list.splits mcall.splits)
next
  case (Cons x rest)
  assume "j \<noteq> i"
  then show ?thesis using Cons
    by (cases "(i, x, rest, s)" rule: do_op.cases)
       (auto simp: step_def upd_def raise_def split: option.splits)
qed

lemma length_threads_step [simp]: "length (threads (step i s)) = length (threads s)"
proof (cases "cur (threads s ! i)")
  case Nil
  then show ?thesis
    by (auto simp: step_def next_call_def Process_step_def upd_def split: phase.splits list.splits mcall.splits)
next
  case (Cons x rest)
  then show ?thesis
    by (cases "(i, x, rest, s)" rule: do_op.cases)
       (auto simp: step_def upd_def raise_def split: option.splits)
qed

lemma length_promises_step: "length (hOwner s) = length (promises s) \<Longrightarrow> length (hOwner (step i s)) = length (promises (step i s))"
proof (cases "cur (threads s ! i)")
  case Nil
  assume "length (hOwner s) = length (promises s)"
  then show ?thesis using Nil
    by (auto simp: step_def next_call_def Process_step_def upd_def split: phase.splits list.splits mcall.splits)
next
  case (Cons x rest)
  assume "length (hOwner s) = length (promises s)"
  then show ?thesis using Cons
    by (cases "(i, x, rest, s)" rule: do_op.cases)
       (auto simp: step_def upd_def raise_def split: option.splits)
qed

lemma wf_step: "wf s \<Longrightarrow> wf (step i s)"
  unfolding wf_def
  apply (intro conjI)
    apply (metis length_threads_step length_0_conv)
   apply (simp add: length_promises_step)
  apply (intro allI impI)
  subgoal for j
    apply (cases "j = i")
     apply (simp add: twf_step_thread)
    apply (simp add: step_other)
    done
  done

lemma wf_init: "wf (init fds mprog wprogs)"
  by (auto simp: wf_def init_def twf_def new_thread_def worker_def nth_Cons list_all_iff split: nat.splits)

lemma wf_exec: "wf (exec sched (init fds mprog wprogs))"
  by (rule exec_induct) (simp_all add: wf_init wf_step)

subsection \<open>The steps of a thread, by cases\<close>

lemma upd_simps [simp]:
  "threads (upd i f s) = (threads s)[i := f (threads s ! i)]"
  "mEventFd (upd i f s) = mEventFd s"
  "mTaskQueue (upd i f s) = mTaskQueue s"
  "signaled (upd i f s) = signaled s"
  "promises (upd i f s) = promises s"
  "memory (upd i f s) = memory s"
  "hOwner (upd i f s) = hOwner s"
  "hPosted (upd i f s) = hPosted s"
  "hSwaps (upd i f s) = hSwaps s"
  "hRuns (upd i f s) = hRuns s"
  by (simp_all add: upd_def)

lemma step_cases [consumes 1, case_names finished call process consume snapshot return invoke
    effect throw post postwait push signal wait get setvalue setfail]:
  assumes "i < length (threads s)"
  obtains
    (finished) "cur (threads s ! i) = []" "phase (threads s ! i) = Idle"
      "prog (threads s ! i) = []" "step i s = s"
  | (call) c p where "cur (threads s ! i) = []" "phase (threads s ! i) = Idle"
      "prog (threads s ! i) = Call c # p"
      "step i s = upd i (\<lambda>t. t\<lparr>prog := p, cur := [Run c]\<rparr>) s"
  | (process) a p where "cur (threads s ! i) = []" "phase (threads s ! i) = Idle"
      "prog (threads s ! i) = CallProcess a # p"
      "step i s = upd i (\<lambda>t. t\<lparr>prog := p, phase := Process_enter s a\<rparr>) s"
  | (consume) "cur (threads s ! i) = []" "phase (threads s ! i) = ConsumeSignal"
      "step i s = upd i (\<lambda>t. t\<lparr>phase := SnapshotAndClearQueue\<rparr>) (s\<lparr>signaled := False\<rparr>)"
  | (snapshot) "cur (threads s ! i) = []" "phase (threads s ! i) = SnapshotAndClearQueue"
      "step i s = upd i (\<lambda>t. t\<lparr>phase := ExecuteEach, batch := mTaskQueue s\<rparr>)
         (s\<lparr>mTaskQueue := [], hSwaps := hSwaps s @ [mTaskQueue s], hRuns := hRuns s @ [[]]\<rparr>)"
  | (return) "cur (threads s ! i) = []" "phase (threads s ! i) = ExecuteEach"
      "batch (threads s ! i) = []" "step i s = upd i (\<lambda>t. t\<lparr>phase := Idle\<rparr>) s"
  | (invoke) x b where "cur (threads s ! i) = []" "phase (threads s ! i) = ExecuteEach"
      "batch (threads s ! i) = x # b"
      "step i s = upd i (\<lambda>t. t\<lparr>cur := invoke (snd x), batch := b\<rparr>)
         (s\<lparr>hRuns := snoc_last x (hRuns s)\<rparr>)"
  | (effect) n rest where "cur (threads s ! i) = Run (Effect n) # rest"
      "step i s = upd i (\<lambda>t. t\<lparr>cur := rest\<rparr>) (s\<lparr>memory := memory s @ [n]\<rparr>)"
  | (throw) rest where "cur (threads s ! i) = Run Throw # rest" "step i s = raise i s"
  | (post) body rest where "cur (threads s ! i) = Run (CallPost body) # rest"
      "step i s = upd i (\<lambda>t. t\<lparr>cur := Post (Plain body) @ rest\<rparr>) s"
  | (postwait) aTask v rest where "cur (threads s ! i) = Run (CallPostAndWait aTask v) # rest"
      "step i s = upd i (\<lambda>t. t\<lparr>cur := PostAndWait (length (promises s)) aTask v @ rest\<rparr>)
         (s\<lparr>promises := promises s @ [None], hOwner := hOwner s @ [(i, aTask, v)]\<rparr>)"
  | (push) c rest where "cur (threads s ! i) = PushTask c # rest"
      "step i s = upd i (\<lambda>t. t\<lparr>cur := rest\<rparr>)
         (s\<lparr>mTaskQueue := mTaskQueue s @ [(i, c)], hPosted := hPosted s @ [(i, c)]\<rparr>)"
  | (signal) rest where "cur (threads s ! i) = Signal # rest"
      "step i s = upd i (\<lambda>t. t\<lparr>cur := rest\<rparr>) (s\<lparr>signaled := True\<rparr>)"
  | (wait) p rest where "cur (threads s ! i) = FutureGet p # rest"
      "p < length (promises s) \<longrightarrow> promises s ! p = None" "step i s = s"
  | (get) p v rest where "cur (threads s ! i) = FutureGet p # rest"
      "p < length (promises s)" "promises s ! p = Some v"
      "step i s = upd i (\<lambda>t. t\<lparr>cur := rest, results := results t @ [(p, v)]\<rparr>) s"
  | (setvalue) p v rest where "cur (threads s ! i) = SetValue p v # rest"
      "p < length (promises s)" "promises s ! p = None"
      "step i s = upd i (\<lambda>t. t\<lparr>cur := rest\<rparr>) (s\<lparr>promises := (promises s)[p := Some v]\<rparr>)"
  | (setfail) p v rest where "cur (threads s ! i) = SetValue p v # rest"
      "\<not> (p < length (promises s) \<and> promises s ! p = None)" "step i s = raise i s"
proof (cases "cur (threads s ! i)")
  case Nil
  show ?thesis
  proof (cases "phase (threads s ! i)")
    case Idle
    show ?thesis
    proof (cases "prog (threads s ! i)")
      case Nil': Nil
      show ?thesis using Nil Idle Nil' assms by (intro finished) (simp_all add: step_def next_call_def Process_step_def)
    next
      case (Cons m p)
      show ?thesis
      proof (cases m)
        case (Call c)
        show ?thesis using Nil Idle Cons Call assms
          by (intro call[of c p]) (simp_all add: step_def next_call_def Process_step_def)
      next
        case (CallProcess a)
        show ?thesis using Nil Idle Cons CallProcess assms
          by (intro process[of a p]) (simp_all add: step_def next_call_def Process_step_def)
      qed
    qed
  next
    case ConsumeSignal
    show ?thesis using Nil ConsumeSignal assms by (intro consume) (simp_all add: step_def next_call_def Process_step_def)
  next
    case SnapshotAndClearQueue
    show ?thesis using Nil SnapshotAndClearQueue assms
      by (intro snapshot) (simp_all add: step_def next_call_def Process_step_def)
  next
    case ExecuteEach
    show ?thesis
    proof (cases "batch (threads s ! i)")
      case Nil': Nil
      show ?thesis using Nil ExecuteEach Nil' assms by (intro return) (simp_all add: step_def next_call_def Process_step_def)
    next
      case (Cons x b)
      show ?thesis using Nil ExecuteEach Cons assms
        by (intro invoke[of x b]) (simp_all add: step_def next_call_def Process_step_def)
    qed
  qed
next
  case (Cons x rest)
  show ?thesis
  proof (cases x)
    case (Run c)
    show ?thesis
    proof (cases c)
      case (Effect n)
      show ?thesis using Cons Run Effect assms by (intro effect[of n rest]) (simp_all add: step_def)
    next
      case Throw
      show ?thesis using Cons Run Throw assms by (intro throw[of rest]) (simp_all add: step_def)
    next
      case (CallPost body)
      show ?thesis using Cons Run CallPost assms by (intro post[of body rest]) (simp_all add: step_def)
    next
      case (CallPostAndWait aTask v)
      show ?thesis using Cons Run CallPostAndWait assms
        by (intro postwait[of aTask v rest]) (simp_all add: step_def)
    qed
  next
    case (PushTask c)
    show ?thesis using Cons PushTask assms by (intro push[of c rest]) (simp_all add: step_def)
  next
    case Signal
    show ?thesis using Cons Signal assms by (intro signal[of rest]) (simp_all add: step_def)
  next
    case (FutureGet p)
    show ?thesis
    proof (cases "p < length (promises s) \<and> promises s ! p \<noteq> None")
      case True
      then obtain v where "promises s ! p = Some v" by auto
      then show ?thesis using True Cons FutureGet assms
        by (intro get[of p rest v]) (simp_all add: step_def)
    next
      case False
      then show ?thesis using Cons FutureGet assms
        by (intro wait[of p rest]) (auto simp add: step_def)
    qed
  next
    case (SetValue p v)
    show ?thesis
    proof (cases "p < length (promises s) \<and> promises s ! p = None")
      case True
      then show ?thesis using Cons SetValue assms
        by (intro setvalue[of p v rest]) (simp_all add: step_def)
    next
      case False
      then show ?thesis using Cons SetValue assms
        by (intro setfail[of p v rest]) (auto simp add: step_def)
    qed
  qed
qed

section \<open>A thread running alone\<close>

text \<open>
  What a run of consecutive steps of one thread does, when the code it executes runs
  through: the state after the run, as an update of the state before it.
\<close>

lemma exec_Cons: "exec (k # ks) s = exec ks (step k s)"
  by (simp add: exec_def)


lemma exec_replicate_add: "exec (replicate (m + n) k) s = exec (replicate n k) (exec (replicate m k) s)"
  by (simp add: exec_def replicate_add)

lemma run_body:
  assumes "k < length (threads s)" "cur (threads s ! k) = map Run body @ rest"
    "list_all runs_through body"
  shows "exec (replicate (body_cost body) k) s =
           s\<lparr>memory := memory s @ effects body,
             mTaskQueue := mTaskQueue s @ map (Pair k) (body_posts body),
             hPosted := hPosted s @ map (Pair k) (body_posts body),
             signaled := signaled s \<or> body_posts body \<noteq> [],
             threads := (threads s)[k := (threads s ! k)\<lparr>cur := rest\<rparr>]\<rparr>"
  using assms unfolding body_posts_def
proof (induction body arbitrary: s)
  case Nil
  have "(threads s)[k := (threads s ! k)\<lparr>cur := rest\<rparr>] = threads s"
    using Nil by (metis list_update_id append_Nil list.simps(8) thread.surjective thread.update_convs(2))
  then show ?case by (simp add: body_cost_def effects_def exec_def)
next
  case (Cons c body)
  show ?case
  proof (cases c)
    case (Effect n)
    let ?s1 = "step k s"
    have s1: "?s1 = upd k (\<lambda>t. t\<lparr>cur := map Run body @ rest\<rparr>) (s\<lparr>memory := memory s @ [n]\<rparr>)"
      using Cons.prems Effect by (simp add: step_def)
    have "exec (replicate (body_cost body) k) ?s1 = ?s1\<lparr>memory := memory ?s1 @ effects body,
             mTaskQueue := mTaskQueue ?s1 @ map (Pair k) (concat (map posts_call body)),
             hPosted := hPosted ?s1 @ map (Pair k) (concat (map posts_call body)),
             signaled := signaled ?s1 \<or> concat (map posts_call body) \<noteq> [],
             threads := (threads ?s1)[k := (threads ?s1 ! k)\<lparr>cur := rest\<rparr>]\<rparr>"
      using Cons.prems by (intro Cons.IH) (simp_all add: s1)
    moreover have "exec (replicate (body_cost (c # body)) k) s = exec (replicate (body_cost body) k) ?s1"
      using Effect by (simp add: body_cost_def exec_def)
    ultimately show ?thesis using Cons.prems Effect
      by (simp add: s1 effects_def upd_def)
  next
    case (CallPost b)
    let ?s1 = "exec [k, k, k] s"
    have s1: "?s1 = upd k (\<lambda>t. t\<lparr>cur := map Run body @ rest\<rparr>)
        (s\<lparr>mTaskQueue := mTaskQueue s @ [(k, Plain b)], hPosted := hPosted s @ [(k, Plain b)],
           signaled := True\<rparr>)"
      using Cons.prems CallPost by (simp add: step_def exec_def Post_def upd_def)
    have "exec (replicate (body_cost body) k) ?s1 = ?s1\<lparr>memory := memory ?s1 @ effects body,
             mTaskQueue := mTaskQueue ?s1 @ map (Pair k) (concat (map posts_call body)),
             hPosted := hPosted ?s1 @ map (Pair k) (concat (map posts_call body)),
             signaled := signaled ?s1 \<or> concat (map posts_call body) \<noteq> [],
             threads := (threads ?s1)[k := (threads ?s1 ! k)\<lparr>cur := rest\<rparr>]\<rparr>"
      using Cons.prems by (intro Cons.IH) (simp_all add: s1)
    moreover have "exec (replicate (body_cost (c # body)) k) s = exec (replicate (body_cost body) k) ?s1"
      using CallPost exec_replicate_add[of 3 "body_cost body" k s]
      by (simp add: body_cost_def numeral_3_eq_3 exec_def)
    ultimately show ?thesis using Cons.prems CallPost
      by (simp add: s1 effects_def upd_def)
  next
    case Throw
    then show ?thesis using Cons.prems by simp
  next
    case (CallPostAndWait b v)
    then show ?thesis using Cons.prems by simp
  qed
qed







lemma wrapper_alone:
  assumes "0 < length (threads s)" "i < length (threads s)" "i \<noteq> 0"
    "cur (threads s ! 0) = []" "phase (threads s ! 0) = ExecuteEach"
    "batch (threads s ! 0) = (j, Wrapper p aTask v) # b" "list_all runs_through aTask"
    "p < length (promises s)" "promises s ! p = None"
    "cur (threads s ! i) = FutureGet p # rest"
  shows "results (threads (exec (replicate (body_cost aTask + 2) 0 @ [i]) s) ! i)
           = results (threads s ! i) @ [(p, v)]
       \<and> cur (threads (exec (replicate (body_cost aTask + 2) 0 @ [i]) s) ! i) = rest
       \<and> thrown (threads (exec (replicate (body_cost aTask + 2) 0 @ [i]) s) ! i)
           = thrown (threads s ! i)
       \<and> memory (exec (replicate (body_cost aTask + 2) 0 @ [i]) s) = memory s @ effects aTask
       \<and> promises (exec (replicate (body_cost aTask + 2) 0 @ [i]) s) = (promises s)[p := Some v]"
proof -
  define s1 where "s1 = step 0 s"
  have s1: "s1 = upd 0 (\<lambda>t. t\<lparr>cur := map Run aTask @ [SetValue p v], batch := b\<rparr>)
            (s\<lparr>hRuns := snoc_last (j, Wrapper p aTask v) (hRuns s)\<rparr>)"
    using assms by (simp add: s1_def step_def Process_step_def)
  define s2 where "s2 = exec (replicate (body_cost aTask) 0) s1"
  have s2: "s2 = s1\<lparr>memory := memory s1 @ effects aTask,
             mTaskQueue := mTaskQueue s1 @ map (Pair 0) (body_posts aTask),
             hPosted := hPosted s1 @ map (Pair 0) (body_posts aTask),
             signaled := signaled s1 \<or> body_posts aTask \<noteq> [],
             threads := (threads s1)[0 := (threads s1 ! 0)\<lparr>cur := [SetValue p v]\<rparr>]\<rparr>"
    unfolding s2_def using assms by (intro run_body) (simp_all add: s1)
  define s3 where "s3 = step 0 s2"
  have s3: "s3 = upd 0 (\<lambda>t. t\<lparr>cur := []\<rparr>) (s2\<lparr>promises := (promises s2)[p := Some v]\<rparr>)"
    using assms by (simp add: s3_def step_def s2 s1)
  have e: "exec (replicate (body_cost aTask + 2) 0 @ [i]) s = step i s3"
    using exec_replicate_add[of "Suc (body_cost aTask)" 1 0 s]
    by (simp add: exec_append exec_Cons exec_Nil s3_def s2_def s1_def)
  have ti: "threads s3 ! i = threads s ! i" "promises s3 = (promises s)[p := Some v]"
    "memory s3 = memory s @ effects aTask" "length (threads s3) = length (threads s)"
    using assms by (simp_all add: s3 s2 s1)
  show ?thesis unfolding e using assms ti by (simp add: step_def)
qed

section \<open>No lost wakeup\<close>

lemma wf_thread: "wf s \<Longrightarrow> i < length (threads s) \<Longrightarrow> twf i (threads s ! i)"
  by (simp add: wf_def)

lemma wf_worker_Idle: "wf s \<Longrightarrow> i < length (threads s) \<Longrightarrow> 0 < i \<Longrightarrow> phase (threads s ! i) = Idle"
  by (simp add: wf_def twf_def worker_def)

lemma wf_phase_mainloop: "wf s \<Longrightarrow> i < length (threads s) \<Longrightarrow> phase (threads s ! i) \<noteq> Idle \<Longrightarrow> i = 0"
  using wf_worker_Idle by blast

lemma signalling_other:
  assumes "\<exists>j < length (threads s). \<exists>r. cur (threads s ! j) = Signal # r"
    and "\<forall>r. cur (threads s ! i) \<noteq> Signal # r"
  shows "\<exists>j < length (threads (step i s)). \<exists>r. cur (threads (step i s) ! j) = Signal # r"
proof -
  from assms obtain j r where j: "j < length (threads s)" "cur (threads s ! j) = Signal # r" by blast
  with assms(2) have "j \<noteq> i" by auto
  then have "threads (step i s) ! j = threads s ! j" by (rule step_other)
  with j show ?thesis by auto
qed

lemma wake_inv_step:
  assumes inv: "wake_inv s" and wf: "wf s" and i: "i < length (threads s)"
  shows "wake_inv (step i s)"
proof -
  have w: "twf i (threads s ! i)" using wf i by (rule wf_thread)
  have ne: "threads s \<noteq> []" using wf by (simp add: wf_def)
  have keep: "wake_inv (step i s)"
    if "mTaskQueue (step i s) = mTaskQueue s" "signaled (step i s) = signaled s"
       "\<forall>r. cur (threads s ! i) \<noteq> Signal # r"
       "phase (threads s ! 0) = SnapshotAndClearQueue \<longrightarrow> phase (threads (step i s) ! 0) = SnapshotAndClearQueue"
  proof -
    show ?thesis unfolding wake_inv_def
    proof
      assume "mTaskQueue (step i s) \<noteq> []"
      then have "mTaskQueue s \<noteq> []" using that by simp
      then consider "signaled s" | "\<exists>j < length (threads s). \<exists>r. cur (threads s ! j) = Signal # r"
        | "phase (threads s ! 0) = SnapshotAndClearQueue" using inv by (auto simp: wake_inv_def)
      then show "signaled (step i s) \<or> (\<exists>j<length (threads (step i s)). \<exists>r. cur (threads (step i s) ! j) = Signal # r) \<or>
          phase (threads (step i s) ! 0) = SnapshotAndClearQueue"
      proof cases
        case 1 then show ?thesis using that by simp
      next
        case 2 then show ?thesis using signalling_other[OF 2 that(3)] by blast
      next
        case 3 then show ?thesis using that by simp
      qed
    qed
  qed
  have ph0: "phase (threads s ! 0) = SnapshotAndClearQueue \<Longrightarrow> cur (threads s ! 0) = []"
    using wf ne by (auto simp: wf_def twf_def)
  from i show ?thesis
  proof (cases rule: step_cases)
    case finished then show ?thesis using inv by simp
  next
    case (call c p) then show ?thesis using i by (intro keep) (auto simp: nth_list_update)
  next
    case (process a p)
    then show ?thesis using i by (intro keep) (auto simp: nth_list_update)
  next
    case consume
    then have "i = 0" using wf_phase_mainloop[OF wf i] by simp
    then show ?thesis using consume i by (simp add: wake_inv_def)
  next
    case snapshot then show ?thesis by (simp add: wake_inv_def)
  next
    case return then show ?thesis using i by (intro keep) (auto simp: nth_list_update)
  next
    case (invoke x b) then show ?thesis using i by (intro keep) (auto simp: nth_list_update)
  next
    case (effect n rest) then show ?thesis using i ph0 by (intro keep) (auto simp: nth_list_update)
  next
    case (throw rest) then show ?thesis using i ph0 by (intro keep) (auto simp: nth_list_update raise_def)
  next
    case (post body rest) then show ?thesis using i ph0 by (intro keep) (auto simp: nth_list_update)
  next
    case (postwait aTask v rest) then show ?thesis using i ph0 by (intro keep) (auto simp: nth_list_update)
  next
    case (push c rest)
    then obtain zs where "rest = Signal # zs" using w by (auto simp: twf_def)
    then show ?thesis using push i by (auto simp: wake_inv_def)
  next
    case (signal rest) then show ?thesis by (simp add: wake_inv_def)
  next
    case (wait p rest) then show ?thesis using inv by simp
  next
    case (get p v rest) then show ?thesis using i ph0 by (intro keep) (auto simp: nth_list_update)
  next
    case (setvalue p v rest) then show ?thesis using i ph0 by (intro keep) (auto simp: nth_list_update)
  next
    case (setfail p v rest) then show ?thesis using i ph0 by (intro keep) (auto simp: nth_list_update raise_def)
  qed
qed

lemma wake_inv_init: "wake_inv (init fds mprog wprogs)"
  by (simp add: wake_inv_def init_def)

lemma wake_wf_exec: "wf (exec sched (init fds mprog wprogs)) \<and> wake_inv (exec sched (init fds mprog wprogs))"
  by (rule exec_induct) (simp_all add: wf_init wf_step wake_inv_init wake_inv_step)

text \<open>
  Claim C4. In every reachable state, a non-empty task queue has a wakeup pending or on
  its way: the channel is signaled, or a thread that has appended its task is about to
  signal, or the mainloop thread has consumed the signal and is about to swap the queue
  out. At the moment a \<^verbatim>\<open>Post\<close> completes (its last action, the signal, is taken) the
  channel is signaled whenever the queue is non-empty. No schedule of the threads loses
  a wakeup.
\<close>

theorem no_lost_wakeup:
  assumes "s = exec sched (init fds mprog wprogs)"
  shows "(mTaskQueue s \<noteq> [] \<longrightarrow>
            signaled s
          \<or> (\<exists>i < length (threads s). \<exists>r. cur (threads s ! i) = Signal # r)
          \<or> phase (threads s ! 0) = SnapshotAndClearQueue)
       \<and> (\<forall>i < length (threads s). \<forall>r. cur (threads s ! i) = Signal # r \<longrightarrow>
            mTaskQueue (step i s) \<noteq> [] \<longrightarrow> signaled (step i s))"
proof
  show "mTaskQueue s \<noteq> [] \<longrightarrow>
            signaled s
          \<or> (\<exists>i < length (threads s). \<exists>r. cur (threads s ! i) = Signal # r)
          \<or> phase (threads s ! 0) = SnapshotAndClearQueue"
    using wake_wf_exec[of sched fds mprog wprogs] assms by (simp add: wake_inv_def)
next
  show "\<forall>i < length (threads s). \<forall>r. cur (threads s ! i) = Signal # r \<longrightarrow>
            mTaskQueue (step i s) \<noteq> [] \<longrightarrow> signaled (step i s)"
    by (simp add: step_def)
qed

text \<open>
  A worker thread posts one task and has taken the append but not yet the signal: the
  queue is non-empty, the channel quiescent, the worker is about to signal, and its
  next step signals.
\<close>

theorem no_lost_wakeup_witness:
  "mTaskQueue (exec [1, 1, 1] one_post) \<noteq> []
   \<and> \<not> signaled (exec [1, 1, 1] one_post)
   \<and> cur (threads (exec [1, 1, 1] one_post) ! 1) = [Signal]
   \<and> mTaskQueue (step 1 (exec [1, 1, 1] one_post)) \<noteq> []
   \<and> signaled (step 1 (exec [1, 1, 1] one_post))"
proof -
  have h: "exec [1, 1, 1] one_post = exec [1, 1, 1] (init (\<lambda>k. 3) [] [[CallPost [Effect 5]]])"
    by (simp add: one_post_def)
  show ?thesis
    using no_lost_wakeup[OF h]
    by (simp add: one_post_def exec_def step_def next_call_def Process_step_def init_def new_thread_def upd_def Post_def)
qed

section \<open>Order of execution\<close>

lemma raise_simps [simp]:
  "mEventFd (raise i s) = mEventFd s"
  "mTaskQueue (raise i s) = mTaskQueue s"
  "signaled (raise i s) = signaled s"
  "promises (raise i s) = promises s"
  "memory (raise i s) = memory s"
  "hOwner (raise i s) = hOwner s"
  "hPosted (raise i s) = hPosted s"
  "hSwaps (raise i s) = hSwaps s"
  "hRuns (raise i s) = hRuns s"
  by (simp_all add: raise_def)

lemma raise_thread:
  "i < length (threads s) \<Longrightarrow>
   cur (threads (raise i s) ! i) = []
   \<and> thrown (threads (raise i s) ! i) = Suc (thrown (threads s ! i))
   \<and> results (threads (raise i s) ! i) = results (threads s ! i)
   \<and> batch (threads (raise i s) ! i) = (if phase (threads s ! i) = ExecuteEach then [] else batch (threads s ! i))
   \<and> phase (threads (raise i s) ! i) = (if phase (threads s ! i) = ExecuteEach then Idle else phase (threads s ! i))"
  by (simp add: raise_def)

lemma raise_other: "j \<noteq> i \<Longrightarrow> threads (raise i s) ! j = threads s ! j"
  by (simp add: raise_def)

lemma concat_snoc_last [simp]: "concat (snoc_last x xss) = concat xss @ [x]"
proof (cases "xss = []")
  case True
  then show ?thesis by (simp add: snoc_last_def)
next
  case False
  then have "concat xss = concat (butlast xss) @ last xss"
    by (metis append_butlast_last_id concat_append concat.simps(1,2) append_Nil2)
  with False show ?thesis by (simp add: snoc_last_def)
qed

lemma snoc_last_simps [simp]:
  "snoc_last x xss \<noteq> []"
  "xss \<noteq> [] \<Longrightarrow> butlast (snoc_last x xss) = butlast xss"
  "xss \<noteq> [] \<Longrightarrow> last (snoc_last x xss) = last xss @ [x]"
  by (simp_all add: snoc_last_def)

lemma subseq_drop_middle: "subseq (xs @ zs) (xs @ ys @ zs)"
  by (intro list_emb_append_mono list_emb_append2) simp_all

lemma subseq_snoc_both: "subseq xs ys \<Longrightarrow> subseq (xs @ [x]) (ys @ [x])"
  by (intro list_emb_append_mono) simp_all

lemma wf_batch0: "wf s \<Longrightarrow> phase (threads s ! 0) \<noteq> ExecuteEach \<Longrightarrow> batch (threads s ! 0) = []"
  by (auto simp: wf_def twf_def)



lemma order_inv_step:
  assumes inv: "order_inv s" and wf: "wf s" and i: "i < length (threads s)"
  shows "order_inv (step i s)"
proof -
  have ne: "0 < length (threads s)" using wf by (simp add: wf_def)
  have same: "order_inv (step i s)"
    if "hRuns (step i s) = hRuns s" "batch (threads (step i s) ! 0) = batch (threads s ! 0)"
      "mTaskQueue (step i s) = mTaskQueue s" "hPosted (step i s) = hPosted s"
    using that inv by (simp add: order_inv_def)
  from i show ?thesis
  proof (cases rule: step_cases)
    case finished then show ?thesis using inv by simp
  next
    case (call c p) then show ?thesis using i by (intro same) (auto simp: nth_list_update)
  next
    case (process a p) then show ?thesis using i by (intro same) (auto simp: nth_list_update)
  next
    case consume then show ?thesis using i by (intro same) (auto simp: nth_list_update)
  next
    case snapshot
    then have "i = 0" using wf_phase_mainloop[OF wf i] by simp
    moreover have "batch (threads s ! 0) = []" using wf_batch0[OF wf] snapshot \<open>i = 0\<close> by simp
    ultimately show ?thesis using snapshot inv ne by (simp add: order_inv_def)
  next
    case return then show ?thesis using i by (intro same) (auto simp: nth_list_update)
  next
    case (invoke x b)
    then have "i = 0" using wf_phase_mainloop[OF wf i] by simp
    then show ?thesis using invoke inv ne by (simp add: order_inv_def)
  next
    case (effect n rest) then show ?thesis using i by (intro same) (auto simp: nth_list_update)
  next
    case (throw rest)
    have "subseq (concat (hRuns s) @ batch (threads (raise i s) ! 0) @ mTaskQueue s)
            (concat (hRuns s) @ batch (threads s ! 0) @ mTaskQueue s)"
      using i by (cases "i = 0") (auto simp: raise_thread raise_other subseq_drop_middle)
    then show ?thesis using throw inv unfolding order_inv_def
      by simp
  next
    case (post body rest) then show ?thesis using i by (intro same) (auto simp: nth_list_update)
  next
    case (postwait aTask v rest) then show ?thesis using i by (intro same) (auto simp: nth_list_update)
  next
    case (push c rest)
    have "batch (threads (step i s) ! 0) = batch (threads s ! 0)" using push i ne
      by (cases "i = 0") (auto)
    then show ?thesis using push inv subseq_snoc_both[of "concat (hRuns s) @ batch (threads s ! 0) @ mTaskQueue s" "hPosted s" "(i, c)"]
      unfolding order_inv_def by simp
  next
    case (signal rest) then show ?thesis using i by (intro same) (auto simp: nth_list_update)
  next
    case (wait p rest) then show ?thesis using inv by simp
  next
    case (get p v rest) then show ?thesis using i by (intro same) (auto simp: nth_list_update)
  next
    case (setvalue p v rest) then show ?thesis using i by (intro same) (auto simp: nth_list_update)
  next
    case (setfail p v rest)
    have "subseq (concat (hRuns s) @ batch (threads (raise i s) ! 0) @ mTaskQueue s)
            (concat (hRuns s) @ batch (threads s ! 0) @ mTaskQueue s)"
      using i by (cases "i = 0") (auto simp: raise_thread raise_other subseq_drop_middle)
    then show ?thesis using setfail inv unfolding order_inv_def
      by simp
  qed
qed

lemma fifo_inv_step:
  assumes inv: "fifo_inv s" and wf: "wf s" and i: "i < length (threads s)"
  shows "fifo_inv (step i s)"
proof -
  have ne: "0 < length (threads s)" using wf by (simp add: wf_def)
  have same: "fifo_inv (step i s)"
    if "hRuns (step i s) = hRuns s" "hSwaps (step i s) = hSwaps s"
      "batch (threads (step i s) ! 0) = batch (threads s ! 0)"
      "mTaskQueue (step i s) = mTaskQueue s" "hPosted (step i s) = hPosted s"
      "thrown (threads (step i s) ! 0) = thrown (threads s ! 0)"
      "phase (threads (step i s) ! 0) = ExecuteEach \<longleftrightarrow> phase (threads s ! 0) = ExecuteEach"
    using that inv by (simp add: fifo_inv_def)
  from i show ?thesis
  proof (cases rule: step_cases)
    case finished then show ?thesis using inv by simp
  next
    case (call c p) then show ?thesis using i by (intro same) (auto simp: nth_list_update)
  next
    case (process a p)
    then show ?thesis using i by (intro same) (auto simp: nth_list_update Process_enter_def)
  next
    case consume then show ?thesis using i by (intro same) (auto simp: nth_list_update)
  next
    case snapshot
    then have "i = 0" using wf_phase_mainloop[OF wf i] by simp
    moreover have "batch (threads s ! 0) = []" using wf_batch0[OF wf] snapshot \<open>i = 0\<close> by simp
    ultimately show ?thesis using snapshot inv ne by (auto simp: fifo_inv_def)
  next
    case return
    then have i0: "i = 0" using wf_phase_mainloop[OF wf i] by simp
    show ?thesis using return inv ne unfolding i0 fifo_inv_def by auto
  next
    case (invoke x b)
    then have i0: "i = 0" using wf_phase_mainloop[OF wf i] by simp
    show ?thesis using invoke inv ne unfolding i0 fifo_inv_def by auto
  next
    case (effect n rest) then show ?thesis using i by (intro same) (auto simp: nth_list_update)
  next
    case (throw rest)
    show ?thesis
    proof (cases "i = 0")
      case True
      then show ?thesis using throw ne by (simp add: fifo_inv_def raise_thread)
    next
      case False
      then show ?thesis using throw by (intro same) (simp_all add: raise_other)
    qed
  next
    case (post body rest) then show ?thesis using i by (intro same) (auto simp: nth_list_update)
  next
    case (postwait aTask v rest) then show ?thesis using i by (intro same) (auto simp: nth_list_update)
  next
    case (push c rest)
    have "batch (threads (step i s) ! 0) = batch (threads s ! 0)
        \<and> thrown (threads (step i s) ! 0) = thrown (threads s ! 0)
        \<and> phase (threads (step i s) ! 0) = phase (threads s ! 0)"
      using push i ne by (cases "i = 0") auto
    then show ?thesis using push inv unfolding fifo_inv_def by auto
  next
    case (signal rest) then show ?thesis using i by (intro same) (auto simp: nth_list_update)
  next
    case (wait p rest) then show ?thesis using inv by simp
  next
    case (get p v rest) then show ?thesis using i by (intro same) (auto simp: nth_list_update)
  next
    case (setvalue p v rest) then show ?thesis using i by (intro same) (auto simp: nth_list_update)
  next
    case (setfail p v rest)
    show ?thesis
    proof (cases "i = 0")
      case True
      then show ?thesis using setfail ne by (simp add: fifo_inv_def raise_thread)
    next
      case False
      then show ?thesis using setfail by (intro same) (simp_all add: raise_other)
    qed
  qed
qed

lemma order_inv_init: "order_inv (init fds mprog wprogs)"
  by (simp add: order_inv_def init_def new_thread_def)

lemma fifo_inv_init: "fifo_inv (init fds mprog wprogs)"
  by (simp add: fifo_inv_def init_def new_thread_def)

lemma fifo_exec:
  "wf (exec sched (init fds mprog wprogs)) \<and> order_inv (exec sched (init fds mprog wprogs))
   \<and> fifo_inv (exec sched (init fds mprog wprogs))"
  by (rule exec_induct)
     (simp_all add: wf_init wf_step order_inv_init order_inv_step fifo_inv_init fifo_inv_step)

subsection \<open>The posts of one thread\<close>

lemma plain_by_simps [simp]:
  "plain_by i [] = []"
  "plain_by i (xs @ ys) = plain_by i xs @ plain_by i ys"
  "plain_by i [(j, c)] = (if j = i \<and> is_Plain c then [c] else [])"
  by (simp_all add: plain_by_def)




lemma hPosted_step: "prefix (hPosted s) (hPosted (step i s))"
proof (cases "i < length (threads s)")
  case True
  then show ?thesis by (cases rule: step_cases) auto
next
  case False
  then show ?thesis by (simp add: step_def)
qed

lemma hPosted_exec: "prefix (hPosted s) (hPosted (exec sched s))"
proof (induction sched rule: rev_induct)
  case Nil
  show ?case by (simp add: exec_Nil)
next
  case (snoc i sched)
  show ?case using snoc hPosted_step[of "exec sched s" i]
    by (simp add: exec_snoc)
qed



lemmas run_simps = exec_def step_def next_call_def Process_step_def init_def new_thread_def upd_def Post_def
  PostAndWait_def Process_enter_def kRead_def raise_def snoc_last_def plain_by_def





section \<open>An idle \<^verbatim>\<open>Process\<close> call\<close>

text \<open>
  Claim C8. The mainloop thread is about to call \<^verbatim>\<open>Process\<close> with a context in which
  the wakeup descriptor is not ready, and the queue is empty. Its three steps through
  \<^verbatim>\<open>Process\<close> (the readiness check, the swap, the return) change nothing but its own
  position in its program: the channel keeps its state, so no signal is consumed; the
  queue stays empty; memory, the promises, the results and the other threads are the
  same, so no task is executed. The history records one \<^verbatim>\<open>Process\<close> call that took
  nothing and executed nothing.
\<close>

theorem idle_noop:
  assumes "s = exec sched (init fds mprog wprogs)"
    and "cur (threads s ! 0) = []" and "phase (threads s ! 0) = Idle"
    and "prog (threads s ! 0) = CallProcess aMainloop # p"
    and "mEventFd s kRead \<notin> mReadFdSet aMainloop" and "mTaskQueue s = []"
  shows "exec [0, 0, 0] s =
           s\<lparr>threads := (threads s)[0 := (threads s ! 0)\<lparr>prog := p\<rparr>],
             hSwaps := hSwaps s @ [[]], hRuns := hRuns s @ [[]]\<rparr>"
proof -
  have wf: "wf s" using wf_exec[of sched fds mprog wprogs] assms(1) by simp
  have ne: "0 < length (threads s)" using wf by (simp add: wf_def)
  have b: "batch (threads s ! 0) = []" using wf_batch0[OF wf] assms(3) by simp
  have t: "(threads s ! 0)\<lparr>prog := p, phase := SnapshotAndClearQueue, phase := ExecuteEach,
             batch := [], phase := Idle\<rparr> = (threads s ! 0)\<lparr>prog := p\<rparr>"
    using b assms(3) by (cases "threads s ! 0") simp
  show ?thesis using assms(2-) ne t
    by (simp add: exec_def step_def next_call_def Process_step_def Process_enter_def upd_def)
qed

theorem idle_noop_witness:
  "exec [0, 0, 0] idle_system
     = (init (\<lambda>k. 3) [] [[CallPost [Effect 1]]])\<lparr>hSwaps := [[]], hRuns := [[]]\<rparr>
   \<and> \<not> signaled (exec [0, 0, 0] idle_system)
   \<and> memory (exec [0, 0, 0] idle_system) = []
   \<and> mTaskQueue (exec [0, 0, 0] idle_system) = []"
proof -
  have h1: "idle_system = exec [] (init (\<lambda>k. 3) [CallProcess not_ready] [[CallPost [Effect 1]]])"
    by (simp add: exec_Nil idle_system_def)
  have h2: "cur (threads idle_system ! 0) = []"
    and h3: "phase (threads idle_system ! 0) = Idle"
    and h4: "prog (threads idle_system ! 0) = CallProcess not_ready # []"
    and h5: "mEventFd idle_system kRead \<notin> mReadFdSet not_ready"
    and h6: "mTaskQueue idle_system = []"
    by (simp_all add: idle_system_def init_def new_thread_def not_ready_def)
  show ?thesis
    using idle_noop[OF h1 h2 h3 h4 h5 h6]
    by (simp add: idle_system_def init_def new_thread_def)
qed

section \<open>Promises\<close>

lemma user_tail_no_FutureGet: "user_tail xs \<Longrightarrow> FutureGet p \<notin> set xs"
  by (induction xs rule: user_tail.induct) auto

lemma user_tail_no_PushTask: "user_tail xs \<Longrightarrow> PushTask c \<notin> set xs"
  by (induction xs rule: user_tail.induct) auto

lemma get_ok_no_PushTask: "get_ok xs \<Longrightarrow> PushTask c \<notin> set xs"
  by (cases xs rule: user_tail.cases) (auto dest: user_tail_no_PushTask)

lemma invoke_no_FutureGet [simp]: "FutureGet p \<notin> set (invoke c)"
  by (cases c) auto

lemma invoke_no_PushTask [simp]: "PushTask x \<notin> set (invoke c)"
  by (cases c) auto

lemma own_inv_step:
  assumes inv: "own_inv s" and wf: "wf s" and i: "i < length (threads s)"
  shows "own_inv (step i s)"
proof -
  have len: "length (hOwner s) = length (promises s)" using wf by (simp add: wf_def)
  have A1: "p < length (hOwner s) \<and> hOwner s ! p = (j, b, v)"
    if "(j, Wrapper p b v) \<in> set (hPosted s)" for j p b v
    using inv that by (auto simp: own_inv_def)
  have A2: "p < length (hOwner s) \<and> hOwner s ! p = (k, b, v)"
    if "k < length (threads s)" "PushTask (Wrapper p b v) \<in> set (cur (threads s ! k))" for k p b v
    using inv that by (auto simp: own_inv_def)
  have A3: "p < length (hOwner s) \<and> fst (hOwner s ! p) = k"
    if "k < length (threads s)" "FutureGet p \<in> set (cur (threads s ! k))" for k p
    using inv that by (auto simp: own_inv_def)
  have same: "own_inv (step i s)"
    if "hPosted (step i s) = hPosted s" "hOwner (step i s) = hOwner s"
      "\<And>p b v. PushTask (Wrapper p b v) \<in> set (cur (threads (step i s) ! i)) \<Longrightarrow>
         PushTask (Wrapper p b v) \<in> set (cur (threads s ! i))"
      "\<And>p. FutureGet p \<in> set (cur (threads (step i s) ! i)) \<Longrightarrow>
         FutureGet p \<in> set (cur (threads s ! i))"
  proof -
    have other: "threads (step i s) ! k = threads s ! k" if "k \<noteq> i" for k
      using that by (simp add: step_other)
    show ?thesis unfolding own_inv_def
    proof (intro conjI allI impI)
      fix j p b v assume "(j, Wrapper p b v) \<in> set (hPosted (step i s))"
      then show "p < length (hOwner (step i s))" "hOwner (step i s) ! p = (j, b, v)"
        using A1 that(1,2) by auto
    next
      fix k p b v
      assume k: "k < length (threads (step i s))"
        and m: "PushTask (Wrapper p b v) \<in> set (cur (threads (step i s) ! k))"
      have "PushTask (Wrapper p b v) \<in> set (cur (threads s ! k))"
        using m that(3) other by (cases "k = i") auto
      then show "p < length (hOwner (step i s))" "hOwner (step i s) ! p = (k, b, v)"
        using A2 k that(2) by auto
    next
      fix k p
      assume k: "k < length (threads (step i s))"
        and m: "FutureGet p \<in> set (cur (threads (step i s) ! k))"
      have "FutureGet p \<in> set (cur (threads s ! k))"
        using m that(4) other by (cases "k = i") auto
      then show "p < length (hOwner (step i s))" "fst (hOwner (step i s) ! p) = k"
        using A3 k that(2) by auto
    qed
  qed
  from i show ?thesis
  proof (cases rule: step_cases)
    case finished then show ?thesis using inv by simp
  next
    case (call c p) then show ?thesis using i by (intro same) auto
  next
    case (process a p) then show ?thesis using i by (intro same) auto
  next
    case consume then show ?thesis using i by (intro same) auto
  next
    case snapshot then show ?thesis using i by (intro same) auto
  next
    case return then show ?thesis using i by (intro same) auto
  next
    case (invoke x b) then show ?thesis using i by (intro same) auto
  next
    case (effect n rest) then show ?thesis using i by (intro same) auto
  next
    case (throw rest) then show ?thesis using i by (intro same) (auto simp: raise_thread)
  next
    case (post body rest) then show ?thesis using i by (intro same) (auto simp: Post_def)
  next
    case (postwait aTask v rest)
    have other: "threads (step i s) ! k = threads s ! k" if "k \<noteq> i" for k
      using that by (simp add: step_other)
    have ho: "hOwner (step i s) = hOwner s @ [(i, aTask, v)]"
      and hp: "hPosted (step i s) = hPosted s"
      and cu: "cur (threads (step i s) ! i)
        = PushTask (Wrapper (length (hOwner s)) aTask v) # Signal # FutureGet (length (hOwner s)) # rest"
      using postwait i len by (simp_all add: PostAndWait_def Post_def)
    show ?thesis unfolding own_inv_def
    proof (intro conjI allI impI)
      fix j p b w assume "(j, Wrapper p b w) \<in> set (hPosted (step i s))"
      then show "p < length (hOwner (step i s))" "hOwner (step i s) ! p = (j, b, w)"
        using A1[of j p b w] hp ho by (auto simp: nth_append)
    next
      fix k p b w
      assume k: "k < length (threads (step i s))"
        and m: "PushTask (Wrapper p b w) \<in> set (cur (threads (step i s) ! k))"
      show "p < length (hOwner (step i s))" "hOwner (step i s) ! p = (k, b, w)"
        using m k A2[of k p b w] other[of k] cu ho postwait(1)
        by (cases "k = i"; auto simp: nth_append)+
    next
      fix k p
      assume k: "k < length (threads (step i s))"
        and m: "FutureGet p \<in> set (cur (threads (step i s) ! k))"
      show "p < length (hOwner (step i s))" "fst (hOwner (step i s) ! p) = k"
        using m k A3[of k p] other[of k] cu ho postwait(1)
        by (cases "k = i"; auto simp: nth_append)+
    qed
  next
    case (push c rest)
    have other: "threads (step i s) ! k = threads s ! k" if "k \<noteq> i" for k
      using that by (simp add: step_other)
    have ho: "hOwner (step i s) = hOwner s"
      and hp: "hPosted (step i s) = hPosted s @ [(i, c)]"
      and cu: "cur (threads (step i s) ! i) = rest"
      using push i by simp_all
    show ?thesis unfolding own_inv_def
    proof (intro conjI allI impI)
      fix j p b w assume "(j, Wrapper p b w) \<in> set (hPosted (step i s))"
      then show "p < length (hOwner (step i s))" "hOwner (step i s) ! p = (j, b, w)"
        using A1[of j p b w] A2[of i p b w] i hp ho push(1) by auto
    next
      fix k p b w
      assume k: "k < length (threads (step i s))"
        and m: "PushTask (Wrapper p b w) \<in> set (cur (threads (step i s) ! k))"
      show "p < length (hOwner (step i s))" "hOwner (step i s) ! p = (k, b, w)"
        using m k A2[of k p b w] other[of k] cu ho push(1)
        by (cases "k = i"; auto)+
    next
      fix k p
      assume k: "k < length (threads (step i s))"
        and m: "FutureGet p \<in> set (cur (threads (step i s) ! k))"
      show "p < length (hOwner (step i s))" "fst (hOwner (step i s) ! p) = k"
        using m k A3[of k p] other[of k] cu ho push(1)
        by (cases "k = i"; auto)+
    qed
  next
    case (signal rest) then show ?thesis using i by (intro same) auto
  next
    case (wait p rest) then show ?thesis using inv by simp
  next
    case (get p v rest) then show ?thesis using i by (intro same) auto
  next
    case (setvalue p v rest) then show ?thesis using i by (intro same) auto
  next
    case (setfail p v rest) then show ?thesis using i by (intro same) (auto simp: raise_thread)
  qed
qed

lemma own_inv_init: "own_inv (init fds mprog wprogs)"
  by (auto simp: own_inv_def init_def new_thread_def nth_Cons split: nat.splits)

lemma own_exec:
  "wf (exec sched (init fds mprog wprogs)) \<and> own_inv (exec sched (init fds mprog wprogs))"
  by (rule exec_induct) (simp_all add: wf_init wf_step own_inv_init own_inv_step)

subsection \<open>What a step never undoes\<close>

lemma hOwner_step: "hOwner (step i s) = hOwner s \<or> (\<exists>x. hOwner (step i s) = hOwner s @ [x])"
proof (cases "i < length (threads s)")
  case True
  then show ?thesis by (cases rule: step_cases) auto
next
  case False
  then show ?thesis by (simp add: step_def)
qed

lemma hOwner_step_nth:
  "p < length (hOwner s) \<Longrightarrow> p < length (hOwner (step i s)) \<and> hOwner (step i s) ! p = hOwner s ! p"
  using hOwner_step[of i s] by (auto simp: nth_append)

lemma memory_step: "memory (step i s) = memory s \<or> (\<exists>n. memory (step i s) = memory s @ [n])"
proof (cases "i < length (threads s)")
  case True
  then show ?thesis by (cases rule: step_cases) auto
next
  case False
  then show ?thesis by (simp add: step_def)
qed

lemma hRuns_step: "set (concat (hRuns s)) \<subseteq> set (concat (hRuns (step i s)))"
proof (cases "i < length (threads s)")
  case True
  then show ?thesis by (cases rule: step_cases) auto
next
  case False
  then show ?thesis by (simp add: step_def)
qed

lemma promises_step:
  "p < length (promises s) \<Longrightarrow> promises s ! p = Some v \<Longrightarrow>
   p < length (promises (step i s)) \<and> promises (step i s) ! p = Some v"
proof (cases "i < length (threads s)")
  case True
  assume "p < length (promises s)" "promises s ! p = Some v"
  with True show ?thesis by (cases rule: step_cases) (auto simp: nth_append nth_list_update)
next
  case False
  assume "p < length (promises s)" "promises s ! p = Some v"
  with False show ?thesis by (simp add: step_def)
qed

lemma subseq_insert_middle: "subseq e (xs @ ys) \<Longrightarrow> subseq e (xs @ zs @ ys)"
proof -
  assume "subseq e (xs @ ys)"
  then obtain e1 e2 where e: "e = e1 @ e2" "subseq e1 xs" "subseq e2 ys"
    by (rule subseq_appendE)
  have "subseq e2 (zs @ ys)" using e(3) by (rule subseq_drop_many)
  with e(2) have "subseq (e1 @ e2) (xs @ zs @ ys)" by (rule list_emb_append_mono)
  then show ?thesis using e(1) by simp
qed

lemma subseq_memory_step:
  "subseq e (memory s @ ys) \<Longrightarrow> subseq e (memory (step i s) @ ys)"
  using memory_step[of i s] subseq_insert_middle[of e "memory s" ys "[n]" for n] by auto

subsection \<open>The value of a promise\<close>

lemma pending_simps [simp]:
  "pending [] = []"
  "pending (x # xs) = pending_op x @ pending xs"
  "pending (xs @ ys) = pending xs @ pending ys"
  by (simp_all add: pending_def)

lemma pending_map_Run [simp]: "pending (map Run b) = effects b"
  by (induction b) (simp_all add: effects_def)

lemma delivered_step:
  assumes "delivered s p v extra"
  shows "delivered (step i s) p v extra"
proof -
  from assms obtain j b where p: "p < length (hOwner s)" and o: "hOwner s ! p = (j, b, v)"
    and r: "(j, Wrapper p b v) \<in> set (concat (hRuns s))"
    and m: "subseq (effects b) (memory s @ extra)"
    by (auto simp: delivered_def)
  have "p < length (hOwner (step i s))" "hOwner (step i s) ! p = (j, b, v)"
    using hOwner_step_nth[OF p, of i] o by simp_all
  moreover have "(j, Wrapper p b v) \<in> set (concat (hRuns (step i s)))"
    using r hRuns_step[of s i] by blast
  moreover have "subseq (effects b) (memory (step i s) @ extra)"
    using m by (rule subseq_memory_step)
  ultimately show ?thesis by (auto simp: delivered_def)
qed

lemma delivered_weaken: "delivered s p v [] \<Longrightarrow> delivered s p v extra"
  unfolding delivered_def using subseq_rev_drop_many[of _ "memory s" extra]
  by (metis append_Nil2)

lemma SetValue_origin:
  assumes i: "i < length (threads s)"
    and m: "SetValue p v \<in> set (cur (threads (step i s) ! i))"
  shows "(SetValue p v \<in> set (cur (threads s ! i))
          \<and> memory (step i s) @ pending (cur (threads (step i s) ! i))
              = memory s @ pending (cur (threads s ! i)))
       \<or> (\<exists>j b rest. cur (threads s ! i) = [] \<and> phase (threads s ! i) = ExecuteEach
            \<and> batch (threads s ! i) = (j, Wrapper p b v) # rest
            \<and> cur (threads (step i s) ! i) = map Run b @ [SetValue p v]
            \<and> hRuns (step i s) = snoc_last (j, Wrapper p b v) (hRuns s)
            \<and> memory (step i s) = memory s \<and> hOwner (step i s) = hOwner s)"
  using i
proof (cases rule: step_cases)
  case (invoke x b)
  then show ?thesis using m i by (cases x; cases "snd x") auto
qed (use m i in \<open>auto simp: raise_thread Post_def PostAndWait_def\<close>)

lemma results_origin:
  assumes i: "i < length (threads s)"
    and m: "(p, v) \<in> set (results (threads (step i s) ! i))"
  shows "(p, v) \<in> set (results (threads s ! i))
       \<or> (\<exists>rest. cur (threads s ! i) = FutureGet p # rest
            \<and> p < length (promises s) \<and> promises s ! p = Some v)"
  using i by (cases rule: step_cases) (use m i in \<open>auto simp: raise_thread\<close>)

lemma promise_origin:
  assumes m: "p < length (promises (step i s))" "promises (step i s) ! p = Some v"
  shows "(p < length (promises s) \<and> promises s ! p = Some v)
       \<or> (i < length (threads s) \<and> (\<exists>rest. cur (threads s ! i) = SetValue p v # rest))"
proof (cases "i < length (threads s)")
  case True
  then show ?thesis
    by (cases rule: step_cases) (use m True in \<open>auto simp: nth_append nth_list_update split: if_splits\<close>)
next
  case False
  then show ?thesis using m by (simp add: step_def)
qed

lemma batch_posted:
  assumes "order_inv s" "x \<in> set (batch (threads s ! 0))"
  shows "x \<in> set (hPosted s)"
proof -
  have "subseq (concat (hRuns s) @ batch (threads s ! 0) @ mTaskQueue s) (hPosted s)"
    using assms(1) by (simp add: order_inv_def)
  moreover have "x \<in> set (concat (hRuns s) @ batch (threads s ! 0) @ mTaskQueue s)"
    using assms(2) by simp
  ultimately obtain y where "y \<in> set (hPosted s)" "x = y" by (rule list_emb_set)
  then show ?thesis by simp
qed

lemma val_inv_step:
  assumes inv: "val_inv s" and wf: "wf s" and own: "own_inv s" and ord: "order_inv s"
    and i: "i < length (threads s)"
  shows "val_inv (step i s)"
proof -
  have len: "length (hOwner s) = length (promises s)" using wf by (simp add: wf_def)
  have B1: "delivered s p v (pending (cur (threads s ! k)))"
    if "k < length (threads s)" "SetValue p v \<in> set (cur (threads s ! k))" for k p v
    using inv that by (auto simp: val_inv_def)
  have B2: "delivered s p v []" if "p < length (promises s)" "promises s ! p = Some v" for p v
    using inv that by (auto simp: val_inv_def)
  have B3: "p < length (promises s) \<and> promises s ! p = Some v \<and> fst (hOwner s ! p) = k"
    if "k < length (threads s)" "(p, v) \<in> set (results (threads s ! k))" for k p v
    using inv that by (auto simp: val_inv_def)
  have other: "threads (step i s) ! k = threads s ! k" if "k \<noteq> i" for k
    using that by (simp add: step_other)
  show ?thesis unfolding val_inv_def
  proof (intro conjI allI impI)
    fix k p v
    assume k: "k < length (threads (step i s))"
      and m: "SetValue p v \<in> set (cur (threads (step i s) ! k))"
    show "delivered (step i s) p v (pending (cur (threads (step i s) ! k)))"
    proof (cases "k = i")
      case False
      then show ?thesis using B1[of k p v] k m other[of k] by (simp add: delivered_step)
    next
      case True
      from SetValue_origin[OF i m[unfolded True]] show ?thesis
      proof (elim disjE conjE exE)
        assume a: "SetValue p v \<in> set (cur (threads s ! i))"
          and e: "memory (step i s) @ pending (cur (threads (step i s) ! i))
                    = memory s @ pending (cur (threads s ! i))"
        from B1[OF i a] obtain j b where p: "p < length (hOwner s)"
          and o: "hOwner s ! p = (j, b, v)" and r: "(j, Wrapper p b v) \<in> set (concat (hRuns s))"
          and sub: "subseq (effects b) (memory s @ pending (cur (threads s ! i)))"
          by (auto simp: delivered_def)
        have "subseq (effects b) (memory (step i s) @ pending (cur (threads (step i s) ! i)))"
          using sub e by simp
        then show ?thesis using hOwner_step_nth[OF p, of i] o r hRuns_step[of s i]
          unfolding True delivered_def by auto
      next
        fix j b rest
        assume c: "cur (threads s ! i) = []" and ph: "phase (threads s ! i) = ExecuteEach"
          and ba: "batch (threads s ! i) = (j, Wrapper p b v) # rest"
          and c': "cur (threads (step i s) ! i) = map Run b @ [SetValue p v]"
          and hr: "hRuns (step i s) = snoc_last (j, Wrapper p b v) (hRuns s)"
          and me: "memory (step i s) = memory s" and ho: "hOwner (step i s) = hOwner s"
        have i0: "i = 0" using wf_phase_mainloop[OF wf i] ph by simp
        have "(j, Wrapper p b v) \<in> set (hPosted s)"
          using batch_posted[OF ord] ba i0 by simp
        then have "p < length (hOwner s)" "hOwner s ! p = (j, b, v)"
          using own by (auto simp: own_inv_def)
        then show ?thesis using c' hr me ho subseq_drop_many[of "effects b" "effects b" "memory s"]
          unfolding True delivered_def by simp
      qed
    qed
  next
    fix p v
    assume m: "p < length (promises (step i s)) \<and> promises (step i s) ! p = Some v"
    from promise_origin[of p i s v] m
    consider "p < length (promises s)" "promises s ! p = Some v"
      | rest where "cur (threads s ! i) = SetValue p v # rest" by auto
    then show "delivered (step i s) p v []"
    proof cases
      case 1
      then show ?thesis using B2 by (simp add: delivered_step)
    next
      case 2
      have "twf i (threads s ! i)" using wf i by (rule wf_thread)
      then have "rest = []" using 2 by (simp add: twf_def)
      then have "delivered s p v []" using B1[OF i, of p v] 2 by simp
      then show ?thesis by (rule delivered_step)
    qed
  next
    fix k p v
    assume k: "k < length (threads (step i s))"
      and m: "(p, v) \<in> set (results (threads (step i s) ! k))"
    have old: "p < length (promises s) \<and> promises s ! p = Some v \<and> fst (hOwner s ! p) = k"
    proof (cases "k = i")
      case False
      then show ?thesis using B3[of k p v] k m other[of k] by simp
    next
      case True
      from results_origin[OF i m[unfolded True]] show ?thesis
      proof (elim disjE exE conjE)
        assume "(p, v) \<in> set (results (threads s ! i))"
        then show ?thesis using B3[OF i] True by simp
      next
        fix rest assume c: "cur (threads s ! i) = FutureGet p # rest"
          and pv: "p < length (promises s)" "promises s ! p = Some v"
        have "fst (hOwner s ! p) = i" using own i c by (auto simp: own_inv_def)
        then show ?thesis using pv True by simp
      qed
    qed
    then show "p < length (promises (step i s))" "promises (step i s) ! p = Some v"
      "fst (hOwner (step i s) ! p) = k"
      using promises_step[of p s v i] hOwner_step_nth[of p s i] len by simp_all
  qed
qed

lemma val_inv_init: "val_inv (init fds mprog wprogs)"
  by (auto simp: val_inv_def init_def new_thread_def nth_Cons split: nat.splits)


subsection \<open>Waiting on the mainloop thread\<close>

lemma FutureGet_origin:
  assumes i: "i < length (threads s)"
    and m: "FutureGet p \<in> set (cur (threads (step i s) ! i))"
  shows "FutureGet p \<in> set (cur (threads s ! i))
       \<or> (p = length (promises s) \<and> promises (step i s) = promises s @ [None])"
  using i by (cases rule: step_cases) (use m i in \<open>auto simp: raise_thread Post_def PostAndWait_def\<close>)

lemma promise_None_step:
  assumes "p < length (promises s)" "promises s ! p = None"
  shows "p < length (promises (step i s))
       \<and> (promises (step i s) ! p = None
          \<or> (i < length (threads s) \<and> (\<exists>v rest. cur (threads s ! i) = SetValue p v # rest)))"
proof (cases "i < length (threads s)")
  case True
  then show ?thesis
    by (cases rule: step_cases) (use assms True in \<open>auto simp: nth_append nth_list_update\<close>)
next
  case False
  then show ?thesis using assms by (simp add: step_def)
qed

lemma wf_worker_no_SetValue:
  "wf s \<Longrightarrow> i < length (threads s) \<Longrightarrow> 0 < i \<Longrightarrow> cur (threads s ! i) \<noteq> SetValue p v # rest"
  by (auto simp: wf_def twf_def worker_def)

lemma get_inv_step:
  assumes inv: "get_inv s" and wf: "wf s" and i: "i < length (threads s)"
  shows "get_inv (step i s)"
  unfolding get_inv_def
proof (intro allI impI)
  fix p assume m: "FutureGet p \<in> set (cur (threads (step i s) ! 0))"
  have ne: "0 < length (threads s)" using wf by (simp add: wf_def)
  have old: "p < length (promises (step i s)) \<and> promises (step i s) ! p = None"
    if a: "FutureGet p \<in> set (cur (threads s ! 0))"
  proof -
    have pn: "p < length (promises s)" "promises s ! p = None"
      using inv a by (auto simp: get_inv_def)
    have "cur (threads s ! i) \<noteq> SetValue q v # rest" for q v rest
    proof (cases "i = 0")
      case True
      have "twf 0 (threads s ! 0)" using wf ne by (rule wf_thread)
      then show ?thesis using a True by (auto simp: twf_def)
    next
      case False
      then show ?thesis using wf_worker_no_SetValue[OF wf i] by simp
    qed
    then show ?thesis using promise_None_step[OF pn, of i] by auto
  qed
  show "p < length (promises (step i s)) \<and> promises (step i s) ! p = None"
  proof (cases "i = 0")
    case True
    then have "FutureGet p \<in> set (cur (threads (step 0 s) ! 0))" using m by simp
    from FutureGet_origin[OF ne this] show ?thesis using old True by auto
  next
    case False
    then have "threads (step i s) ! 0 = threads s ! 0" by (simp add: step_other)
    then show ?thesis using old m by simp
  qed
qed

lemma get_inv_init: "get_inv (init fds mprog wprogs)"
  by (simp add: get_inv_def init_def new_thread_def)

lemma get_exec:
  "wf (exec sched (init fds mprog wprogs)) \<and> get_inv (exec sched (init fds mprog wprogs))"
  by (rule exec_induct) (simp_all add: wf_init wf_step get_inv_init get_inv_step)

lemma mainloop_results_step:
  assumes inv: "get_inv s" and r: "results (threads s ! 0) = []"
  shows "results (threads (step i s) ! 0) = []"
proof (cases "i = 0")
  case True
  show ?thesis
  proof (cases "0 < length (threads s)")
    case ne: True
    then show ?thesis unfolding True
      by (cases rule: step_cases) (use ne r inv in \<open>auto simp: raise_thread get_inv_def\<close>)
  next
    case False
    then show ?thesis using r True by (simp add: step_def)
  qed
next
  case False
  then show ?thesis using r by (simp add: step_other)
qed

lemma mainloop_results:
  "wf (exec sched (init fds mprog wprogs)) \<and> get_inv (exec sched (init fds mprog wprogs))
   \<and> results (threads (exec sched (init fds mprog wprogs)) ! 0) = []"
  by (rule exec_induct)
     (simp_all add: wf_init wf_step get_inv_init get_inv_step mainloop_results_step,
      simp add: init_def new_thread_def)

lemma reach_append:
  "exec sched' (exec sched (init fds mprog wprogs)) = exec (sched @ sched') (init fds mprog wprogs)"
  by (simp add: exec_append)

text \<open>
  Claim C5. No \<^verbatim>\<open>PostAndWait\<close> call of the mainloop thread ever returns: its list of
  results is empty in every reachable state. When the mainloop thread enters
  \<^verbatim>\<open>PostAndWait\<close>, its next three steps construct the promise, append the wrapper and
  signal, without raising an exception, and leave it in \<^verbatim>\<open>get()\<close>; and once it is in
  \<^verbatim>\<open>get()\<close> its state never changes again, whatever the schedule.
\<close>

theorem mainloop_deadlock:
  assumes "s = exec sched (init fds mprog wprogs)"
  shows "results (threads s ! 0) = []
       \<and> (\<forall>aTask v rest. cur (threads s ! 0) = Run (CallPostAndWait aTask v) # rest \<longrightarrow>
            cur (threads (exec [0, 0, 0] s) ! 0) = FutureGet (length (promises s)) # rest
          \<and> thrown (threads (exec [0, 0, 0] s) ! 0) = thrown (threads s ! 0))
       \<and> (\<forall>p rest. cur (threads s ! 0) = FutureGet p # rest \<longrightarrow>
            (\<forall>sched'. threads (exec sched' s) ! 0 = threads s ! 0))"
proof (intro conjI allI impI)
  show "results (threads s ! 0) = []"
    using mainloop_results[of sched fds mprog wprogs] assms by simp
next
  fix aTask v rest
  assume c: "cur (threads s ! 0) = Run (CallPostAndWait aTask v) # rest"
  have "wf s" using wf_exec[of sched fds mprog wprogs] assms by simp
  then have ne: "0 < length (threads s)" by (simp add: wf_def)
  show "cur (threads (exec [0, 0, 0] s) ! 0) = FutureGet (length (promises s)) # rest"
    "thrown (threads (exec [0, 0, 0] s) ! 0) = thrown (threads s ! 0)"
    using c ne by (simp_all add: exec_def step_def PostAndWait_def Post_def upd_def)
next
  fix p rest sched'
  assume c: "cur (threads s ! 0) = FutureGet p # rest"
  show "threads (exec sched' s) ! 0 = threads s ! 0"
  proof (induction sched' rule: rev_induct)
    case Nil
    show ?case by (simp add: exec_Nil)
  next
    case (snoc i sched')
    let ?t = "exec sched' s"
    have "get_inv ?t" "wf ?t"
      using mainloop_results[of "sched @ sched'" fds mprog wprogs] assms
      by (simp_all add: reach_append)
    then have n: "p < length (promises ?t)" "promises ?t ! p = None" and ne: "0 < length (threads ?t)"
      using c snoc by (auto simp: get_inv_def wf_def)
    have "threads (step i ?t) ! 0 = threads ?t ! 0"
    proof (cases "i = 0")
      case True
      have "step 0 ?t = ?t" using c snoc n ne by (simp add: step_def)
      then show ?thesis using True by simp
    next
      case False
      then show ?thesis by (simp add: step_other)
    qed
    then show ?case using snoc by (simp add: exec_snoc)
  qed
qed

text \<open>
  The mainloop thread calls \<^verbatim>\<open>PostAndWait\<close> and then would call \<^verbatim>\<open>Process\<close>. After
  four steps it is in \<^verbatim>\<open>get()\<close>, its wrapper is in the queue and the channel is
  signaled; however the two threads are scheduled afterwards, it stays there.
\<close>

theorem mainloop_deadlock_witness:
  "cur (threads (exec [0, 0, 0, 0] self_wait) ! 0) = [FutureGet 0]
   \<and> prog (threads (exec [0, 0, 0, 0] self_wait) ! 0) = [CallProcess ready]
   \<and> mTaskQueue (exec [0, 0, 0, 0] self_wait) = [(0, Wrapper 0 [Effect 1] 7)]
   \<and> signaled (exec [0, 0, 0, 0] self_wait)
   \<and> threads (exec [0, 1, 0, 1, 1, 0] (exec [0, 0, 0, 0] self_wait)) ! 0
       = threads (exec [0, 0, 0, 0] self_wait) ! 0
   \<and> results (threads (exec [0, 0, 0, 0] self_wait) ! 0) = []"
proof -
  have h: "exec [0, 0, 0, 0] self_wait = exec [0, 0, 0, 0]
      (init (\<lambda>k. 3) [Call (CallPostAndWait [Effect 1] 7), CallProcess ready] [[CallPost []]])"
    by (simp add: self_wait_def)
  have c: "cur (threads (exec [0, 0, 0, 0] self_wait) ! 0) = FutureGet 0 # []"
    by (simp add: run_simps self_wait_def)
  show ?thesis
    using mainloop_deadlock[OF h] c
    by (simp add: run_simps self_wait_def)
qed

subsection \<open>Tasks that throw\<close>

lemma throws_step: "p < length (hOwner s) \<Longrightarrow> throws (step i s) p = throws s p"
  by (simp add: throws_def hOwner_step_nth)

lemma Throw_kept:
  assumes i: "i < length (threads s)" and m: "Run Throw \<in> set (cur (threads s ! i))"
  shows "Run Throw \<in> set (cur (threads (step i s) ! i))
       \<or> (cur (threads (step i s) ! i) = [] \<and> 0 < thrown (threads (step i s) ! i))"
  using i by (cases rule: step_cases) (use m i in \<open>auto simp: raise_thread\<close>)

lemma thrown_step: "thrown (threads s ! k) \<le> thrown (threads (step i s) ! k)"
proof (cases "k = i \<and> i < length (threads s)")
  case True
  then have i: "i < length (threads s)" by simp
  from i show ?thesis
    by (cases rule: step_cases) (use True in \<open>auto simp: raise_thread\<close>)
next
  case False
  show ?thesis
  proof (cases "k = i")
    case True
    then show ?thesis using False by (simp add: step_def)
  next
    case False
    then show ?thesis by (simp add: step_other)
  qed
qed

lemma hRuns_origin:
  assumes m: "x \<in> set (concat (hRuns (step i s)))"
  shows "x \<in> set (concat (hRuns s))
       \<or> (i < length (threads s) \<and> cur (threads s ! i) = [] \<and> phase (threads s ! i) = ExecuteEach
           \<and> (\<exists>rest. batch (threads s ! i) = x # rest)
           \<and> cur (threads (step i s) ! i) = invoke (snd x))"
proof (cases "i < length (threads s)")
  case True
  then show ?thesis by (cases rule: step_cases) (use m True in auto)
next
  case False
  then show ?thesis using m by (simp add: step_def)
qed

lemma throw_inv_step:
  assumes inv: "throw_inv s" and wf: "wf s" and own: "own_inv s" and ord: "order_inv s"
    and val: "val_inv s" and i: "i < length (threads s)"
  shows "throw_inv (step i s)"
proof -
  have len: "length (hOwner s) = length (promises s)" using wf by (simp add: wf_def)
  have ne: "0 < length (threads s)" using wf by (simp add: wf_def)
  have B1: "p < length (hOwner s)"
    if "k < length (threads s)" "SetValue p v \<in> set (cur (threads s ! k))" for k p v
    using val that by (auto simp: val_inv_def delivered_def)
  have T1: "Run Throw \<in> set (cur (threads s ! k))"
    if "k < length (threads s)" "SetValue p v \<in> set (cur (threads s ! k))" "throws s p" for k p v
    using inv that by (auto simp: throw_inv_def)
  have T2: "promises s ! p = None" if "p < length (promises s)" "throws s p" for p
    using inv that by (auto simp: throw_inv_def)
  have T3: "Run Throw \<in> set (cur (threads s ! 0)) \<or> 0 < thrown (threads s ! 0)"
    if "(j, Wrapper p b v) \<in> set (concat (hRuns s))" "Throw \<in> set b" for j p b v
  proof -
    have "\<forall>j p b v. (j, Wrapper p b v) \<in> set (concat (hRuns s)) \<and> Throw \<in> set b \<longrightarrow>
        Run Throw \<in> set (cur (threads s ! 0)) \<or> 0 < thrown (threads s ! 0)"
      using inv unfolding throw_inv_def by (elim conjE)
    then show ?thesis using that by (elim allE[where x=j] allE[where x=p] allE[where x=b] allE[where x=v]) simp
  qed
  have other: "threads (step i s) ! k = threads s ! k" if "k \<noteq> i" for k
    using that by (simp add: step_other)
  have owner: "p < length (hOwner s) \<and> hOwner s ! p = (j, b, v)"
    if "batch (threads s ! i) = (j, Wrapper p b v) # rest" "phase (threads s ! i) = ExecuteEach"
    for j p b v rest
  proof -
    have "i = 0" using wf_phase_mainloop[OF wf i] that(2) by simp
    then have "(j, Wrapper p b v) \<in> set (hPosted s)" using batch_posted[OF ord] that(1) by simp
    then show ?thesis using own by (auto simp: own_inv_def)
  qed
  show ?thesis unfolding throw_inv_def
  proof (intro conjI allI impI)
    fix k p v
    assume k: "k < length (threads (step i s))"
      and m: "SetValue p v \<in> set (cur (threads (step i s) ! k)) \<and> throws (step i s) p"
    show "Run Throw \<in> set (cur (threads (step i s) ! k))"
    proof (cases "k = i")
      case False
      then show ?thesis using T1[of k p v] B1[of k p v] k m other[of k] by (simp add: throws_step)
    next
      case True
      have m': "SetValue p v \<in> set (cur (threads (step i s) ! i))" using m True by simp
      from SetValue_origin[OF i m'] show ?thesis
      proof (elim disjE conjE exE)
        assume a: "SetValue p v \<in> set (cur (threads s ! i))"
        then have "throws s p" using B1[OF i a] m by (simp add: throws_step)
        then have "Run Throw \<in> set (cur (threads s ! i))" using T1[OF i a] by simp
        from Throw_kept[OF i this] show ?thesis using m' True by auto
      next
        fix j b rest
        assume ph: "phase (threads s ! i) = ExecuteEach"
          and ba: "batch (threads s ! i) = (j, Wrapper p b v) # rest"
          and c': "cur (threads (step i s) ! i) = map Run b @ [SetValue p v]"
        have o: "p < length (hOwner s)" "hOwner s ! p = (j, b, v)" using owner[OF ba ph] by simp_all
        then have "Throw \<in> set b" using m by (simp add: throws_step) (simp add: throws_def)
        then show ?thesis using c' True by simp
      qed
    qed
  next
    fix p assume m: "p < length (promises (step i s)) \<and> throws (step i s) p"
    show "promises (step i s) ! p = None"
    proof (rule ccontr)
      assume "promises (step i s) ! p \<noteq> None"
      then obtain v where v: "promises (step i s) ! p = Some v" by auto
      from promise_origin[OF _ v] m
      consider "p < length (promises s)" "promises s ! p = Some v"
        | rest where "cur (threads s ! i) = SetValue p v # rest" by auto
      then show False
      proof cases
        case 1
        then show ?thesis using T2[of p] m len by (simp add: throws_step)
      next
        case 2
        have "twf i (threads s ! i)" using wf i by (rule wf_thread)
        then have r: "rest = []" using 2 by (simp add: twf_def)
        have "p < length (hOwner s)" using B1[OF i, of p v] 2 by simp
        then have "throws s p" using m by (simp add: throws_step)
        then show ?thesis using T1[OF i, of p v] 2 r by simp
      qed
    qed
  next
    fix j p b v
    assume m: "(j, Wrapper p b v) \<in> set (concat (hRuns (step i s))) \<and> Throw \<in> set b"
    from hRuns_origin[of "(j, Wrapper p b v)" i s] m
    consider "(j, Wrapper p b v) \<in> set (concat (hRuns s))"
      | "phase (threads s ! i) = ExecuteEach" "cur (threads (step i s) ! i) = invoke (Wrapper p b v)"
      by auto
    then show "Run Throw \<in> set (cur (threads (step i s) ! 0)) \<or> 0 < thrown (threads (step i s) ! 0)"
    proof cases
      case 1
      from T3[OF 1] m consider "Run Throw \<in> set (cur (threads s ! 0))" | "0 < thrown (threads s ! 0)"
        by auto
      then show ?thesis
      proof cases
        case a: 1
        show ?thesis
        proof (cases "i = 0")
          case True
          then show ?thesis using Throw_kept[OF ne a] by auto
        next
          case False
          then show ?thesis using a by (simp add: step_other)
        qed
      next
        case 2
        then show ?thesis using thrown_step[of s 0 i] by simp
      qed
    next
      case 2
      have "i = 0" using wf_phase_mainloop[OF wf i] 2(1) by simp
      then show ?thesis using 2(2) m by simp
    qed
  qed
qed

lemma throw_inv_init: "throw_inv (init fds mprog wprogs)"
  by (auto simp: throw_inv_def init_def new_thread_def nth_Cons split: nat.splits)

lemma throw_exec:
  "wf (exec sched (init fds mprog wprogs)) \<and> own_inv (exec sched (init fds mprog wprogs))
   \<and> order_inv (exec sched (init fds mprog wprogs)) \<and> val_inv (exec sched (init fds mprog wprogs))
   \<and> throw_inv (exec sched (init fds mprog wprogs))"
  by (rule exec_induct)
     (simp_all add: wf_init wf_step own_inv_init own_inv_step order_inv_init order_inv_step
        val_inv_init val_inv_step throw_inv_init throw_inv_step)

lemma hOwner_exec_nth:
  "p < length (hOwner s) \<Longrightarrow>
   p < length (hOwner (exec sched s)) \<and> hOwner (exec sched s) ! p = hOwner s ! p"
proof (induction sched rule: rev_induct)
  case Nil
  then show ?case by (simp add: exec_Nil)
next
  case (snoc i sched)
  then show ?case using hOwner_step_nth[of p "exec sched s" i] by (simp add: exec_snoc)
qed

subsection \<open>The queue slot of a \<^verbatim>\<open>PostAndWait\<close> call\<close>

lemma slots_simps [simp]:
  "slots p [] = 0"
  "slots p (xs @ [(j, c)]) = slots p xs + (if wraps p c then 1 else 0)"
  by (simp_all add: slots_def)

lemma slot_inv_step:
  assumes inv: "slot_inv s" and wf: "wf s" and own: "own_inv s" and i: "i < length (threads s)"
  shows "slot_inv (step i s)"
proof -
  have len: "length (hOwner s) = length (promises s)" using wf by (simp add: wf_def)
  have ok: "cur_ok (cur (threads s ! i))" using wf_thread[OF wf i] by (simp add: twf_def)
  have S1: "slots p (hPosted s) \<le> 1" for p using inv by (simp add: slot_inv_def)
  have S2: "slots p (hPosted s) = 0"
    if "k < length (threads s)" "PushTask c \<in> set (cur (threads s ! k))" "wraps p c" for k c p
    using inv that unfolding slot_inv_def by blast
  have S3a: "wraps p c"
    if "k < length (threads s)" "FutureGet p \<in> set (cur (threads s ! k))"
      "PushTask c \<in> set (cur (threads s ! k))" for k c p
    using inv that unfolding slot_inv_def by blast
  have S3b: "slots p (hPosted s) = 1"
    if "k < length (threads s)" "FutureGet p \<in> set (cur (threads s ! k))"
      "no_push (cur (threads s ! k))" for k p
    using inv that unfolding slot_inv_def by blast
  have S4: "slots p (hPosted s) = 0" if "length (promises s) \<le> p" for p
    using inv that by (simp add: slot_inv_def)
  have A2: "p < length (promises s) \<and> fst (hOwner s ! p) = k"
    if "k < length (threads s)" "PushTask c \<in> set (cur (threads s ! k))" "wraps p c" for k c p
    using own that len by (cases c) (auto simp: own_inv_def)
  have other: "threads (step i s) ! k = threads s ! k" if "k \<noteq> i" for k
    using that by (simp add: step_other)
  have same: "slot_inv (step i s)"
    if "hPosted (step i s) = hPosted s" "length (promises s) \<le> length (promises (step i s))"
      "\<And>c p. PushTask c \<in> set (cur (threads (step i s) ! i)) \<Longrightarrow> wraps p c \<Longrightarrow>
         PushTask c \<in> set (cur (threads s ! i))"
      "\<And>p. FutureGet p \<in> set (cur (threads (step i s) ! i)) \<Longrightarrow>
         FutureGet p \<in> set (cur (threads s ! i))
         \<and> (\<forall>c. PushTask c \<in> set (cur (threads (step i s) ! i)) \<longrightarrow>
               PushTask c \<in> set (cur (threads s ! i)))
         \<and> (no_push (cur (threads (step i s) ! i)) \<longrightarrow> no_push (cur (threads s ! i)))"
    unfolding slot_inv_def
  proof (intro conjI allI impI)
    fix p show "slots p (hPosted (step i s)) \<le> 1" using S1 that(1) by simp
  next
    fix k c p
    assume "k < length (threads (step i s))"
      "PushTask c \<in> set (cur (threads (step i s) ! k)) \<and> wraps p c"
    then show "slots p (hPosted (step i s)) = 0"
      using S2[of k c p] that(1,3) other[of k] by (cases "k = i") auto
  next
    fix k p c
    assume "k < length (threads (step i s))" "FutureGet p \<in> set (cur (threads (step i s) ! k))"
      "PushTask c \<in> set (cur (threads (step i s) ! k))"
    then show "wraps p c"
      using S3a[of k p c] that(4)[of p] other[of k] by (cases "k = i") auto
  next
    fix k p
    assume "k < length (threads (step i s))" "FutureGet p \<in> set (cur (threads (step i s) ! k))"
      "no_push (cur (threads (step i s) ! k))"
    then show "slots p (hPosted (step i s)) = 1"
      using S3b[of k p] that(1) that(4)[of p] other[of k] by (cases "k = i") auto
  next
    fix p assume "length (promises (step i s)) \<le> p"
    then show "slots p (hPosted (step i s)) = 0" using S4[of p] that(1,2) by simp
  qed
  from i show ?thesis
  proof (cases rule: step_cases)
    case finished then show ?thesis using inv by simp
  next
    case (call c p) then show ?thesis using i by (intro same) (auto simp: no_push_def)
  next
    case (process a p) then show ?thesis using i by (intro same) (auto simp: no_push_def)
  next
    case consume then show ?thesis using i by (intro same) (auto simp: no_push_def)
  next
    case snapshot then show ?thesis using i by (intro same) (auto simp: no_push_def)
  next
    case return then show ?thesis using i by (intro same) (auto simp: no_push_def)
  next
    case (invoke x b) then show ?thesis using i by (intro same) (auto simp: no_push_def)
  next
    case (effect n rest) then show ?thesis using i by (intro same) (auto simp: no_push_def)
  next
    case (throw rest)
    then show ?thesis using i by (intro same) (auto simp: no_push_def raise_thread)
  next
    case (post body rest)
    then show ?thesis using i ok
      by (intro same) (auto simp: no_push_def Post_def dest: user_tail_no_FutureGet)
  next
    case (postwait aTask v rest)
    have ut: "user_tail rest" using ok postwait(1) by simp
    have hp: "hPosted (step i s) = hPosted s"
      and pl: "length (promises (step i s)) = Suc (length (promises s))"
      and cu: "cur (threads (step i s) ! i)
        = PushTask (Wrapper (length (promises s)) aTask v) # Signal
            # FutureGet (length (promises s)) # rest"
      using postwait i by (simp_all add: PostAndWait_def Post_def)
    show ?thesis unfolding slot_inv_def
    proof (intro conjI allI impI)
      fix p show "slots p (hPosted (step i s)) \<le> 1" using S1 hp by simp
    next
      fix k c p
      assume "k < length (threads (step i s))"
        "PushTask c \<in> set (cur (threads (step i s) ! k)) \<and> wraps p c"
      then show "slots p (hPosted (step i s)) = 0"
        using S2[of k c p] S4[of p] hp cu other[of k] user_tail_no_PushTask[OF ut]
        by (cases "k = i") auto
    next
      fix k p c
      assume "k < length (threads (step i s))" "FutureGet p \<in> set (cur (threads (step i s) ! k))"
        "PushTask c \<in> set (cur (threads (step i s) ! k))"
      then show "wraps p c"
        using S3a[of k p c] cu other[of k] user_tail_no_PushTask[OF ut] user_tail_no_FutureGet[OF ut]
        by (cases "k = i") auto
    next
      fix k p
      assume "k < length (threads (step i s))" "FutureGet p \<in> set (cur (threads (step i s) ! k))"
        "no_push (cur (threads (step i s) ! k))"
      then show "slots p (hPosted (step i s)) = 1"
        using S3b[of k p] hp cu other[of k] by (cases "k = i") (auto simp: no_push_def)
    next
      fix p assume "length (promises (step i s)) \<le> p"
      then show "slots p (hPosted (step i s)) = 0" using S4[of p] hp pl by simp
    qed
  next
    case (push c rest)
    obtain zs where rest: "rest = Signal # zs" "get_ok zs" using ok push(1) by auto
    have np: "no_push rest" using rest get_ok_no_PushTask[OF rest(2)] by (auto simp: no_push_def)
    have hp: "hPosted (step i s) = hPosted s @ [(i, c)]"
      and pl: "length (promises (step i s)) = length (promises s)"
      and cu: "cur (threads (step i s) ! i) = rest"
      using push i by simp_all
    have mine: "PushTask c \<in> set (cur (threads s ! i))" using push(1) by simp
    show ?thesis unfolding slot_inv_def
    proof (intro conjI allI impI)
      fix p show "slots p (hPosted (step i s)) \<le> 1"
        using S1[of p] S2[OF i mine, of p] hp by simp
    next
      fix k c' p
      assume k: "k < length (threads (step i s))"
        and m: "PushTask c' \<in> set (cur (threads (step i s) ! k)) \<and> wraps p c'"
      have ki: "k \<noteq> i" using m cu np by (auto simp: no_push_def)
      then have m': "PushTask c' \<in> set (cur (threads s ! k))" using m other by simp
      have "\<not> wraps p c" using A2[OF i mine, of p] A2[of k c' p] k m m' ki by auto
      then show "slots p (hPosted (step i s)) = 0" using S2[of k c' p] k m m' hp by simp
    next
      fix k p c'
      assume "k < length (threads (step i s))" "FutureGet p \<in> set (cur (threads (step i s) ! k))"
        "PushTask c' \<in> set (cur (threads (step i s) ! k))"
      then show "wraps p c'"
        using S3a[of k p c'] cu np other[of k] by (cases "k = i") (auto simp: no_push_def)
    next
      fix k p
      assume k: "k < length (threads (step i s))"
        and g: "FutureGet p \<in> set (cur (threads (step i s) ! k))"
        and n: "no_push (cur (threads (step i s) ! k))"
      show "slots p (hPosted (step i s)) = 1"
      proof (cases "k = i")
        case True
        then have "FutureGet p \<in> set (cur (threads s ! i))" using g cu push(1) by simp
        then have "wraps p c" using S3a[OF i _ mine] by simp
        then show ?thesis using S2[OF i mine, of p] hp by simp
      next
        case False
        then have "slots p (hPosted s) = 1" using S3b[of k p] k g n other by simp
        moreover have "\<not> wraps p c" using S2[OF i mine, of p] calculation by auto
        ultimately show ?thesis using hp by simp
      qed
    next
      fix p assume "length (promises (step i s)) \<le> p"
      then have "slots p (hPosted s) = 0" "\<not> wraps p c"
        using S4[of p] A2[OF i mine, of p] pl by auto
      then show "slots p (hPosted (step i s)) = 0" using hp by simp
    qed
  next
    case (signal rest) then show ?thesis using i by (intro same) (auto simp: no_push_def)
  next
    case (wait p rest) then show ?thesis using inv by simp
  next
    case (get p v rest) then show ?thesis using i by (intro same) (auto simp: no_push_def)
  next
    case (setvalue p v rest) then show ?thesis using i by (intro same) (auto simp: no_push_def)
  next
    case (setfail p v rest)
    then show ?thesis using i by (intro same) (auto simp: no_push_def raise_thread)
  qed
qed

lemma slot_inv_init: "slot_inv (init fds mprog wprogs)"
  by (auto simp: slot_inv_def init_def new_thread_def nth_Cons split: nat.splits)

lemma slot_exec:
  "wf (exec sched (init fds mprog wprogs)) \<and> own_inv (exec sched (init fds mprog wprogs))
   \<and> slot_inv (exec sched (init fds mprog wprogs))"
  by (rule exec_induct)
     (simp_all add: wf_init wf_step own_inv_init own_inv_step slot_inv_init slot_inv_step)

text \<open>
  Claim C10. \<^verbatim>\<open>PostAndWait\<close> is \<^verbatim>\<open>Post\<close> of the wrapper followed by \<^verbatim>\<open>get()\<close>, and
  \<^verbatim>\<open>get()\<close> touches neither the queue nor the wakeup channel. In every reachable state
  the wrapper of a promise has been appended at most once, and exactly once when the
  calling thread is in \<^verbatim>\<open>get()\<close>: the call occupies one slot of the queue. That slot
  is an entry of \<open>hPosted\<close> like that of any posted task, so the order in which tasks
  are executed, which follows \<open>hPosted\<close>, is the same for wrappers and for other tasks.
\<close>

theorem post_and_wait_one_slot:
  assumes "s = exec sched (init fds mprog wprogs)"
  shows "PostAndWait pro aTask v = Post (Wrapper pro aTask v) @ [FutureGet pro]
       \<and> (\<forall>i < length (threads s). \<forall>p rest. cur (threads s ! i) = FutureGet p # rest \<longrightarrow>
            mTaskQueue (step i s) = mTaskQueue s \<and> hPosted (step i s) = hPosted s
          \<and> signaled (step i s) = signaled s \<and> slots p (hPosted s) = 1)
       \<and> (\<forall>p. slots p (hPosted s) \<le> 1)
       \<and> subseq (concat (hRuns s)) (hPosted s)
       \<and> (thrown (threads s ! 0) = 0 \<longrightarrow> prefix (concat (hRuns s)) (hPosted s))"
proof (intro conjI allI impI)
  show "PostAndWait pro aTask v = Post (Wrapper pro aTask v) @ [FutureGet pro]"
    by (simp add: PostAndWait_def)
next
  fix i p rest
  assume i: "i < length (threads s)" and c: "cur (threads s ! i) = FutureGet p # rest"
  have inv: "wf s" "slot_inv s" using slot_exec[of sched fds mprog wprogs] assms by simp_all
  show "mTaskQueue (step i s) = mTaskQueue s" "hPosted (step i s) = hPosted s"
    "signaled (step i s) = signaled s"
    using i c by (simp_all add: step_def split: option.splits)
  have "user_tail rest" using wf_thread[OF inv(1) i] c by (simp add: twf_def)
  then have "no_push (cur (threads s ! i))"
    using c user_tail_no_PushTask by (auto simp: no_push_def)
  moreover have "FutureGet p \<in> set (cur (threads s ! i))" using c by simp
  ultimately show "slots p (hPosted s) = 1" using inv(2) i unfolding slot_inv_def by blast
next
  fix p
  have "slot_inv s" using slot_exec[of sched fds mprog wprogs] assms by simp
  then show "slots p (hPosted s) \<le> 1" by (simp add: slot_inv_def)
next
  have "order_inv s" using fifo_exec[of sched fds mprog wprogs] assms by simp
  then show "subseq (concat (hRuns s)) (hPosted s)"
    unfolding order_inv_def
    by (metis subseq_order.order_trans subseq_rev_drop_many subseq_order.order_refl)
next
  assume "thrown (threads s ! 0) = 0"
  moreover have "fifo_inv s" using fifo_exec[of sched fds mprog wprogs] assms by simp
  ultimately show "prefix (concat (hRuns s)) (hPosted s)"
    unfolding fifo_inv_def by (metis prefixI)
qed

text \<open>
  Thread 1 posts a task that writes 1 and then calls \<^verbatim>\<open>PostAndWait\<close> with a task that
  writes 2; in between thread 2 posts a task that writes 3. When thread 1 is in
  \<^verbatim>\<open>get()\<close> the wrapper is the third entry of the queue, and one \<^verbatim>\<open>Process\<close> call
  executes the three tasks in the order 1, 3, 2.
\<close>

theorem post_and_wait_one_slot_witness:
  "cur (threads (exec until_waiting mixed_posts) ! 1) = [FutureGet 0]
   \<and> mTaskQueue (exec until_waiting mixed_posts)
       = [(1, Plain [Effect 1]), (2, Plain [Effect 3]), (1, Wrapper 0 [Effect 2] 5)]
   \<and> slots 0 (hPosted (exec until_waiting mixed_posts)) = 1
   \<and> mTaskQueue (step 1 (exec until_waiting mixed_posts)) = mTaskQueue (exec until_waiting mixed_posts)
   \<and> thrown (threads (exec until_drained mixed_posts) ! 0) = 0
   \<and> concat (hRuns (exec until_drained mixed_posts))
       = [(1, Plain [Effect 1]), (2, Plain [Effect 3]), (1, Wrapper 0 [Effect 2] 5)]
   \<and> memory (exec until_drained mixed_posts) = [1, 3, 2]"
proof -
  have h1: "exec until_waiting mixed_posts = exec until_waiting
      (init (\<lambda>k. 3) [CallProcess ready]
         [[CallPost [Effect 1], CallPostAndWait [Effect 2] 5], [CallPost [Effect 3]]])"
    and h2: "exec until_drained mixed_posts = exec until_drained
      (init (\<lambda>k. 3) [CallProcess ready]
         [[CallPost [Effect 1], CallPostAndWait [Effect 2] 5], [CallPost [Effect 3]]])"
    by (simp_all add: mixed_posts_def)
  show ?thesis
    using post_and_wait_one_slot[OF h1, of 0 "[]" 0] post_and_wait_one_slot[OF h2, of 0 "[]" 0]
    by (simp add: run_simps mixed_posts_def until_waiting_def until_drained_def ready_def slots_def)
qed

section \<open>Calls that return\<close>

text \<open>
  The invariants above say what has happened when a call has returned. This section
  adds that calls do return: a \<^verbatim>\<open>Process\<close> call whose tasks run through, and a
  \<^verbatim>\<open>PostAndWait\<close> call whose wrapper the mainloop thread has reached. Both rest on
  the runs of the section on a thread running alone, and on the fact that the promise
  of a wrapper that still waits has no value, so that \<^verbatim>\<open>set_value\<close> does not throw.
\<close>

lemma slots_append: "slots p (xs @ ys) = slots p xs + slots p ys"
  by (simp add: slots_def)

lemma slots_member: "x \<in> set xs \<Longrightarrow> wraps p (snd x) \<Longrightarrow> 0 < slots p xs"
  by (auto simp: slots_def filter_empty_conv)

lemma slots_subseq: "subseq xs ys \<Longrightarrow> slots p xs \<le> slots p ys"
  unfolding slots_def by (rule list_emb_length) (rule subseq_filter)







subsection \<open>Promises are set once\<close>




lemma unset_of_invs:
  assumes ord: "order_inv s" and val: "val_inv s" and slot: "slot_inv s"
    and b: "x \<in> set (batch (threads s ! 0) @ mTaskQueue s)" and w: "wraps p (snd x)"
  shows "p < length (promises s) \<and> promises s ! p = None"
proof -
  have le: "slots p (concat (hRuns s)) + slots p (batch (threads s ! 0) @ mTaskQueue s)
      \<le> slots p (hPosted s)"
    using slots_subseq[OF ord[unfolded order_inv_def], of p] by (simp add: slots_append)
  have one: "slots p (hPosted s) \<le> 1" using slot by (simp add: slot_inv_def)
  have pos: "0 < slots p (batch (threads s ! 0) @ mTaskQueue s)" by (rule slots_member[OF b w])
  have lt: "p < length (promises s)"
  proof (rule ccontr)
    assume "\<not> p < length (promises s)"
    then have "slots p (hPosted s) = 0" using slot by (simp add: slot_inv_def)
    then show False using le pos by simp
  qed
  have "promises s ! p = None"
  proof (cases "promises s ! p")
    case (Some r)
    then have "delivered s p r []" using val lt by (simp add: val_inv_def)
    then obtain j' b' where "(j', Wrapper p b' r) \<in> set (concat (hRuns s))"
      by (auto simp: delivered_def)
    then have "0 < slots p (concat (hRuns s))" using slots_member by fastforce
    then show ?thesis using le pos one by simp
  qed simp
  then show ?thesis using lt by simp
qed

lemma SetValue_last:
  "cur_ok (SetValue p v # rest) \<Longrightarrow> rest = []"
  by (cases rest) (auto simp: cur_ok_def sig_ok_def get_ok_def)

lemma once_inv_step:
  assumes inv: "once_inv s" and wf: "wf s" and ord: "order_inv s" and val: "val_inv s"
    and slot: "slot_inv s" and i: "i < length (threads s)"
  shows "once_inv (step i s)"
  unfolding once_inv_def
proof (intro allI impI)
  fix p v assume m: "SetValue p v \<in> set (cur (threads (step i s) ! 0))"
  have ne: "0 < length (threads s)" using wf by (simp add: wf_def)
  have ok: "cur_ok (cur (threads s ! 0))" using wf_thread[OF wf ne] by (simp add: twf_def)
  have old: "p < length (promises (step i s)) \<and> promises (step i s) ! p = None"
    if a: "SetValue p v \<in> set (cur (threads s ! 0))"
      and h: "\<And>q w rest. cur (threads s ! i) \<noteq> SetValue q w # rest"
  proof -
    have pn: "p < length (promises s)" "promises s ! p = None"
      using inv a by (auto simp: once_inv_def)
    show ?thesis using promise_None_step[OF pn, of i] h by auto
  qed
  show "p < length (promises (step i s)) \<and> promises (step i s) ! p = None"
  proof (cases "i = 0")
    case False
    then have same: "threads (step i s) ! 0 = threads s ! 0" by (simp add: step_other)
    have "cur (threads s ! i) \<noteq> SetValue q w # rest" for q w rest
      using wf_worker_no_SetValue[OF wf i] False by simp
    then show ?thesis using old m same by simp
  next
    case True
    then have m0: "SetValue p v \<in> set (cur (threads (step 0 s) ! 0))" using m by simp
    from SetValue_origin[OF ne m0] show ?thesis
    proof (elim disjE conjE exE)
      assume a: "SetValue p v \<in> set (cur (threads s ! 0))"
      have "cur (threads s ! 0) \<noteq> SetValue q w # rest" for q w rest
      proof
        assume c: "cur (threads s ! 0) = SetValue q w # rest"
        then have r: "rest = []" using ok SetValue_last by metis
        from ne have "cur (threads (step 0 s) ! 0) = []"
          by (cases rule: step_cases) (use c r ne in \<open>auto simp: raise_thread\<close>)
        then show False using m0 by simp
      qed
      then show ?thesis using old[OF a] True by simp
    next
      fix j b rest
      assume c: "cur (threads s ! 0) = []" "phase (threads s ! 0) = ExecuteEach"
        "batch (threads s ! 0) = (j, Wrapper p b v) # rest"
      have "(j, Wrapper p b v) \<in> set (batch (threads s ! 0) @ mTaskQueue s)" using c(3) by simp
      then have u: "p < length (promises s) \<and> promises s ! p = None"
        by (rule unset_of_invs[OF ord val slot]) simp
      have "promises (step 0 s) = promises s"
        using c ne by (simp add: step_def Process_step_def)
      then show ?thesis using u True by simp
    qed
  qed
qed

lemma once_inv_init: "once_inv (init fds mprog wprogs)"
  by (simp add: once_inv_def init_def new_thread_def)

lemma once_exec:
  "wf (exec sched (init fds mprog wprogs)) \<and> own_inv (exec sched (init fds mprog wprogs))
   \<and> order_inv (exec sched (init fds mprog wprogs)) \<and> val_inv (exec sched (init fds mprog wprogs))
   \<and> slot_inv (exec sched (init fds mprog wprogs)) \<and> once_inv (exec sched (init fds mprog wprogs))"
  by (rule exec_induct)
     (simp_all add: wf_init wf_step own_inv_init own_inv_step order_inv_init order_inv_step
        val_inv_init val_inv_step slot_inv_init slot_inv_step once_inv_init once_inv_step)

lemma inside_inv_step:
  assumes inv: "inside_inv s" and wf: "wf s" and i: "i < length (threads s)"
  shows "inside_inv (step i s)"
proof (cases "i = 0")
  case False
  then have "threads (step i s) ! 0 = threads s ! 0" by (simp add: step_other)
  then show ?thesis using inv by (simp add: inside_inv_def)
next
  case True
  have ne: "0 < length (threads s)" using wf by (simp add: wf_def)
  from ne show ?thesis unfolding True
    by (cases rule: step_cases)
       (use inv ne in \<open>auto simp: inside_inv_def raise_thread Post_def PostAndWait_def list_ex_iff\<close>)
qed

lemma inside_inv_init: "inside_inv (init fds mprog wprogs)"
  by (simp add: inside_inv_def init_def new_thread_def)

lemma inside_exec: "inside_inv (exec sched (init fds mprog wprogs))"
proof -
  have "wf (exec sched (init fds mprog wprogs)) \<and> inside_inv (exec sched (init fds mprog wprogs))"
    by (rule exec_induct) (simp_all add: wf_init wf_step inside_inv_init inside_inv_step)
  then show ?thesis by simp
qed

lemma worker_frame:
  assumes wf: "wf s" and i: "0 < i"
  shows "hRuns (step i s) = hRuns s \<and> hSwaps (step i s) = hSwaps s
       \<and> threads (step i s) ! 0 = threads s ! 0"
proof (cases "i < length (threads s)")
  case True
  have "phase (threads s ! i) = Idle" using wf_worker_Idle[OF wf True i] .
  with True have "hRuns (step i s) = hRuns s \<and> hSwaps (step i s) = hSwaps s"
    by (cases rule: step_cases) (auto simp: raise_def)
  then show ?thesis using i by (simp add: step_other)
next
  case False
  then show ?thesis by (simp add: step_def)
qed

subsection \<open>A \<^verbatim>\<open>Process\<close> call under every schedule\<close>







lemma ops_cost_simps [simp]:
  "ops_cost [] = 0"
  "ops_cost (x # xs) = op_cost x + ops_cost xs"
  "ops_cost (xs @ ys) = ops_cost xs + ops_cost ys"
  by (simp_all add: ops_cost_def)

lemma ops_cost_map_Run [simp]: "ops_cost (map Run body) = body_cost body"
  by (induction body) (simp_all add: body_cost_def)

lemma queue_cost_simps [simp]:
  "queue_cost [] = 0"
  "queue_cost (x # xs) = closure_cost (snd x) + queue_cost xs"
  by (simp_all add: queue_cost_def)

lemma through_simps [simp]:
  "through [] = True"
  "through (x # xs) = (list_all runs_through (task_body (snd x)) \<and> through xs)"
  by (simp_all add: through_def)

lemma op_through_map_Run [simp]: "list_all op_through (map Run body) = list_all runs_through body"
  by (induction body) simp_all

lemma invoke_through:
  "list_all runs_through (task_body c) \<Longrightarrow> list_all op_through (invoke c)"
  by (cases c) simp_all

lemma invoke_cost: "Suc (ops_cost (invoke c)) = closure_cost c"
  by (cases c) simp_all

lemma butlast_snoc_last:
  "hs \<noteq> [] \<Longrightarrow> butlast (snoc_last x hs) @ [last (snoc_last x hs) @ b]
     = butlast hs @ [last hs @ x # b]"
  by (simp add: snoc_last_def)

lemma drain_step:
  assumes g: "good s" and r: "runs_out (threads s ! 0)"
  shows "thrown (threads (step 0 s) ! 0) = thrown (threads s ! 0)
       \<and> hSwaps (step 0 s) = hSwaps s \<and> hRuns (step 0 s) \<noteq> []
       \<and> butlast (hRuns (step 0 s))
            @ [last (hRuns (step 0 s)) @ batch (threads (step 0 s) ! 0)]
           = butlast (hRuns s) @ [last (hRuns s) @ batch (threads s ! 0)]
       \<and> (if steps_left (threads s ! 0) = 1
          then phase (threads (step 0 s) ! 0) = Idle \<and> cur (threads (step 0 s) ! 0) = []
             \<and> batch (threads (step 0 s) ! 0) = [] \<and> batch (threads s ! 0) = []
             \<and> cur (threads s ! 0) = []
          else runs_out (threads (step 0 s) ! 0)
             \<and> Suc (steps_left (threads (step 0 s) ! 0)) = steps_left (threads s ! 0))
       \<and> (\<forall>p v. ahead p v (threads s ! 0) \<longrightarrow>
            ahead p v (threads (step 0 s) ! 0)
          \<or> (p < length (promises (step 0 s)) \<and> promises (step 0 s) ! p = Some v))"
proof -
  have wf: "wf s" and once: "once_inv s" and calls: "calls_inv s"
    using g by (simp_all add: good_def)
  have ne: "0 < length (threads s)" using wf by (simp add: wf_def)
  have ph: "phase (threads s ! 0) = ExecuteEach" and th: "list_all op_through (cur (threads s ! 0))"
    and tb: "through (batch (threads s ! 0))"
    using r by (simp_all add: runs_out_def)
  have hr: "hRuns s \<noteq> []" using calls ph by (simp add: calls_inv_def)
  have ok: "cur_ok (cur (threads s ! 0))" using wf_thread[OF wf ne] by (simp add: twf_def)
  from ne show ?thesis
  proof (cases rule: step_cases)
    case finished then show ?thesis using ph by simp
  next
    case (call c p) then show ?thesis using ph by simp
  next
    case (process a p) then show ?thesis using ph by simp
  next
    case consume then show ?thesis using ph by simp
  next
    case snapshot then show ?thesis using ph by simp
  next
    case return
    then show ?thesis using ne hr
      by (simp add: steps_left_def ahead_def)
  next
    case (invoke x b)
    have c: "0 < closure_cost (snd x)" by (cases "snd x") simp_all
    have a: "ahead p v (threads (step 0 s) ! 0)" if "ahead p v (threads s ! 0)" for p v
    proof (cases "sets p v (snd x)")
      case True
      then have "SetValue p v \<in> set (invoke (snd x))" by (cases "snd x") auto
      then show ?thesis using invoke ne by (simp add: ahead_def)
    next
      case False
      then show ?thesis using that invoke ne by (simp add: ahead_def)
    qed
    show ?thesis using invoke ne tb hr c a invoke_cost[of "snd x"]
      by (auto simp: steps_left_def runs_out_def invoke_through butlast_snoc_last snoc_last_def)
  next
    case (effect n rest)
    then show ?thesis using ne ph th tb hr
      by (auto simp: steps_left_def runs_out_def ahead_def)
  next
    case (throw rest) then show ?thesis using th by simp
  next
    case (post body rest)
    then show ?thesis using ne ph th tb hr
      by (auto simp: steps_left_def runs_out_def ahead_def Post_def)
  next
    case (postwait aTask v rest) then show ?thesis using th by simp
  next
    case (push c rest)
    then show ?thesis using ne ph th tb hr
      by (auto simp: steps_left_def runs_out_def ahead_def)
  next
    case (signal rest)
    then show ?thesis using ne ph th tb hr
      by (auto simp: steps_left_def runs_out_def ahead_def)
  next
    case (wait p rest) then show ?thesis using th by simp
  next
    case (get p v rest) then show ?thesis using th by simp
  next
    case (setvalue p v rest)
    have rest: "rest = []" using ok setvalue(1) SetValue_last by metis
    show ?thesis using setvalue ne ph th tb rest hr
      by (auto simp: steps_left_def runs_out_def ahead_def nth_list_update)
  next
    case (setfail p v rest)
    then show ?thesis using once by (auto simp: once_inv_def)
  qed
qed

lemma drain_step_parts:
  assumes "good s" "runs_out (threads s ! 0)"
  shows drain_thrown: "thrown (threads (step 0 s) ! 0) = thrown (threads s ! 0)"
      and drain_hSwaps: "hSwaps (step 0 s) = hSwaps s"
      and drain_hRuns_ne: "hRuns (step 0 s) \<noteq> []"
      and drain_hRuns: "butlast (hRuns (step 0 s))
            @ [last (hRuns (step 0 s)) @ batch (threads (step 0 s) ! 0)]
           = butlast (hRuns s) @ [last (hRuns s) @ batch (threads s ! 0)]"
      and drain_left: "if steps_left (threads s ! 0) = 1
          then phase (threads (step 0 s) ! 0) = Idle \<and> cur (threads (step 0 s) ! 0) = []
             \<and> batch (threads (step 0 s) ! 0) = [] \<and> batch (threads s ! 0) = []
             \<and> cur (threads s ! 0) = []
          else runs_out (threads (step 0 s) ! 0)
             \<and> Suc (steps_left (threads (step 0 s) ! 0)) = steps_left (threads s ! 0)"
      and drain_ahead: "\<forall>p v. ahead p v (threads s ! 0) \<longrightarrow>
            ahead p v (threads (step 0 s) ! 0)
          \<or> (p < length (promises (step 0 s)) \<and> promises (step 0 s) ! p = Some v)"
  using drain_step[OF assms] by blast+




subsection \<open>A \<^verbatim>\<open>Post\<close> call under every schedule\<close>

lemma thread_cur_same: "cur t = xs \<Longrightarrow> t\<lparr>cur := xs\<rparr> = t"
  by (cases t) simp

lemma drop_prefix_mono:
  "prefix xs ys \<Longrightarrow> length zs \<le> length xs \<Longrightarrow> x \<in> set (drop (length zs) xs) \<Longrightarrow>
   x \<in> set (drop (length zs) ys)"
  by (auto simp: prefix_def)

lemma post_ops_any:
  assumes "j < length (threads s)" "cur (threads s ! j) = xs @ rest" "list_all post_op xs"
    "count_list sched j = length xs"
  shows "threads (exec sched s) ! j = (threads s ! j)\<lparr>cur := rest\<rparr>
       \<and> (\<forall>c. PushTask c \<in> set xs \<longrightarrow>
            (j, c) \<in> set (drop (length (hPosted s)) (hPosted (exec sched s))))"
  using assms
proof (induction sched arbitrary: s xs)
  case Nil
  then show ?case by (simp add: exec_Nil thread_cur_same)
next
  case (Cons i sched)
  have pre: "prefix (hPosted s) (hPosted (step i s))" by (rule hPosted_step)
  then have le: "length (hPosted s) \<le> length (hPosted (step i s))" by (rule prefix_length_le)
  show ?case
  proof (cases "i = j")
    case False
    have same: "threads (step i s) ! j = threads s ! j" using False by (simp add: step_other)
    have c: "count_list sched j = length xs" using Cons.prems(4) False by simp
    have ih: "threads (exec sched (step i s)) ! j = (threads (step i s) ! j)\<lparr>cur := rest\<rparr>
       \<and> (\<forall>c. PushTask c \<in> set xs \<longrightarrow>
            (j, c) \<in> set (drop (length (hPosted (step i s))) (hPosted (exec sched (step i s)))))"
      using Cons.prems(1,2,3) same c by (intro Cons.IH) simp_all
    have "(j, c) \<in> set (drop (length (hPosted s)) (hPosted (exec sched (step i s))))"
      if "PushTask c \<in> set xs" for c
      using ih that le by (meson in_set_dropD set_drop_subset_set_drop subsetD)
    then show ?thesis using ih same by (simp add: exec_Cons)
  next
    case True
    then obtain x xs' where xs: "xs = x # xs'" using Cons.prems(4) by (cases xs) auto
    have c: "count_list sched j = length xs'" using Cons.prems(4) True xs by simp
    have st: "threads (step j s) ! j = (threads s ! j)\<lparr>cur := xs' @ rest\<rparr>"
      "\<forall>c. x = PushTask c \<longrightarrow> hPosted (step j s) = hPosted s @ [(j, c)]"
      using Cons.prems(1,2,3) xs by (cases x; simp add: step_def)+
    have ih: "threads (exec sched (step j s)) ! j = (threads (step j s) ! j)\<lparr>cur := rest\<rparr>
       \<and> (\<forall>c. PushTask c \<in> set xs' \<longrightarrow>
            (j, c) \<in> set (drop (length (hPosted (step j s))) (hPosted (exec sched (step j s)))))"
      using Cons.prems(1,3) xs st c by (intro Cons.IH) simp_all
    have a: "(j, c) \<in> set (drop (length (hPosted s)) (hPosted (exec sched (step j s))))"
      if "PushTask c \<in> set xs'" for c
      using ih that le True by (meson in_set_dropD set_drop_subset_set_drop subsetD)
    have b: "(j, c) \<in> set (drop (length (hPosted s)) (hPosted (exec sched (step j s))))"
      if "x = PushTask c" for c
    proof -
      have "prefix (hPosted s @ [(j, c)]) (hPosted (exec sched (step j s)))"
        using st(2) that hPosted_exec[of "step j s" sched] by simp
      then show ?thesis by (auto simp: prefix_def)
    qed
    show ?thesis using ih st(1) a b xs True by (auto simp: exec_Cons)
  qed
qed

lemma post_any:
  assumes "j < length (threads s)" "cur (threads s ! j) = Run (CallPost body) # rest"
    "count_list sched j = 3"
  shows "threads (exec sched s) ! j = (threads s ! j)\<lparr>cur := rest\<rparr>
       \<and> (j, Plain body) \<in> set (drop (length (hPosted s)) (hPosted (exec sched s)))"
  using assms
proof (induction sched arbitrary: s)
  case Nil
  then show ?case by simp
next
  case (Cons i sched)
  have pre: "prefix (hPosted s) (hPosted (step i s))" by (rule hPosted_step)
  then have le: "length (hPosted s) \<le> length (hPosted (step i s))" by (rule prefix_length_le)
  show ?case
  proof (cases "i = j")
    case False
    have same: "threads (step i s) ! j = threads s ! j" using False by (simp add: step_other)
    have c: "count_list sched j = 3" using Cons.prems(3) False by simp
    have ih: "threads (exec sched (step i s)) ! j = (threads (step i s) ! j)\<lparr>cur := rest\<rparr>
       \<and> (j, Plain body) \<in> set (drop (length (hPosted (step i s))) (hPosted (exec sched (step i s))))"
      using Cons.prems(1,2) same c by (intro Cons.IH) simp_all
    have "(j, Plain body) \<in> set (drop (length (hPosted s)) (hPosted (exec sched (step i s))))"
      using ih le by (meson in_set_dropD set_drop_subset_set_drop subsetD)
    then show ?thesis using ih same by (simp add: exec_Cons)
  next
    case True
    have c: "count_list sched j = length [PushTask (Plain body), Signal]"
      using Cons.prems(3) True by simp
    have st: "threads (step j s) ! j
        = (threads s ! j)\<lparr>cur := [PushTask (Plain body), Signal] @ rest\<rparr>"
      "hPosted (step j s) = hPosted s"
      using Cons.prems(1,2) by (simp_all add: step_def Post_def)
    have "threads (exec sched (step j s)) ! j = (threads (step j s) ! j)\<lparr>cur := rest\<rparr>
       \<and> (\<forall>c. PushTask c \<in> set [PushTask (Plain body), Signal] \<longrightarrow>
            (j, c) \<in> set (drop (length (hPosted (step j s))) (hPosted (exec sched (step j s)))))"
      using Cons.prems(1) st(1) c by (intro post_ops_any) simp_all
    then show ?thesis using st True by (simp add: exec_Cons)
  qed
qed

subsection \<open>One exception for every task that throws\<close>

lemma Throw_invoke: "Run Throw \<in> set (invoke c) \<longleftrightarrow> Throw \<in> set (task_body c)"
  by (cases c) auto

lemma exc_inv_step:
  assumes inv: "exc_inv s" and wf: "wf s" and i: "i < length (threads s)"
  shows "exc_inv (step i s)"
proof (cases "i = 0")
  case False
  then have "0 < i" by simp
  then show ?thesis using worker_frame[OF wf, of i] inv
    by (simp add: exc_inv_def)
next
  case True
  have ne: "0 < length (threads s)" using wf by (simp add: wf_def)
  have ok: "cur_ok (cur (threads s ! 0))" using wf_thread[OF wf ne] by (simp add: twf_def)
  from ne have "exc_inv (step 0 s)"
  proof (cases rule: step_cases)
    case (invoke x b)
    show ?thesis using invoke ne inv
      by (auto simp: exc_inv_def Throw_invoke)
  next
    case (setvalue p v rest)
    have "rest = []" using ok setvalue(1) SetValue_last by metis
    then show ?thesis using setvalue ne inv by (auto simp: exc_inv_def)
  next
    case (setfail p v rest)
    have "rest = []" using ok setfail(1) SetValue_last by metis
    then show ?thesis using setfail ne inv by (auto simp: exc_inv_def raise_thread)
  qed (use inv ne in \<open>auto simp: exc_inv_def raise_thread Post_def PostAndWait_def\<close>)
  then show ?thesis using True by simp
qed

lemma exc_inv_init: "exc_inv (init fds mprog wprogs)"
  by (simp add: exc_inv_def init_def new_thread_def)

lemma exc_exec: "exc_inv (exec sched (init fds mprog wprogs))"
proof -
  have "wf (exec sched (init fds mprog wprogs)) \<and> exc_inv (exec sched (init fds mprog wprogs))"
    by (rule exec_induct) (simp_all add: wf_init wf_step exc_inv_init exc_inv_step)
  then show ?thesis by simp
qed

section \<open>A call of \<^verbatim>\<open>Post\<close>\<close>

text \<open>
  Claim C7. \<^verbatim>\<open>Post\<close> returns no value, and in every reachable state a call of
  \<^verbatim>\<open>Post\<close> by any thread, the mainloop thread included (also from inside a task that
  \<^verbatim>\<open>Process\<close> is executing), completes in three steps of the caller: it enters, appends
  the task and signals. Run without interruption the three steps leave the state as it
  was but for the task at the end of the queue, the channel signaled and the caller past
  the call, so no exception is raised and nothing else is touched. Under every
  schedule in which the caller takes three steps, whatever the other threads do in
  between, the caller is past the call with the rest of its record unchanged (the count
  of exceptions among it) and the task has been appended. No step of the call waits:
  the append and the signal each change the state in one step.
\<close>

theorem post_completes:
  assumes "s = exec sched (init fds mprog wprogs)"
  shows "(\<forall>j < length (threads s). \<forall>body rest.
            cur (threads s ! j) = Run (CallPost body) # rest \<longrightarrow>
            exec [j, j, j] s =
              s\<lparr>mTaskQueue := mTaskQueue s @ [(j, Plain body)],
                hPosted := hPosted s @ [(j, Plain body)],
                signaled := True,
                threads := (threads s)[j := (threads s ! j)\<lparr>cur := rest\<rparr>]\<rparr>
          \<and> (\<forall>sched'. count_list sched' j = 3 \<longrightarrow>
               threads (exec sched' s) ! j = (threads s ! j)\<lparr>cur := rest\<rparr>
             \<and> (j, Plain body) \<in> set (drop (length (hPosted s)) (hPosted (exec sched' s)))))
       \<and> (\<forall>j < length (threads s). \<forall>c rest.
            cur (threads s ! j) = PushTask c # rest \<longrightarrow>
            step j s =
              s\<lparr>mTaskQueue := mTaskQueue s @ [(j, c)],
                hPosted := hPosted s @ [(j, c)],
                threads := (threads s)[j := (threads s ! j)\<lparr>cur := rest\<rparr>]\<rparr>)
       \<and> (\<forall>j < length (threads s). \<forall>rest.
            cur (threads s ! j) = Signal # rest \<longrightarrow>
            step j s =
              s\<lparr>signaled := True,
                threads := (threads s)[j := (threads s ! j)\<lparr>cur := rest\<rparr>]\<rparr>)"
proof (intro conjI allI impI)
  fix j body rest
  assume j: "j < length (threads s)" and c: "cur (threads s ! j) = Run (CallPost body) # rest"
  show "exec [j, j, j] s =
              s\<lparr>mTaskQueue := mTaskQueue s @ [(j, Plain body)],
                hPosted := hPosted s @ [(j, Plain body)],
                signaled := True,
                threads := (threads s)[j := (threads s ! j)\<lparr>cur := rest\<rparr>]\<rparr>"
    using j c by (simp add: exec_def step_def Post_def upd_def)
  fix sched' assume n: "count_list sched' j = 3"
  show "threads (exec sched' s) ! j = (threads s ! j)\<lparr>cur := rest\<rparr>"
    using post_any[OF j c n] by simp
  show "(j, Plain body) \<in> set (drop (length (hPosted s)) (hPosted (exec sched' s)))"
    using post_any[OF j c n] by simp
next
  fix j c rest
  assume "j < length (threads s)" "cur (threads s ! j) = PushTask c # rest"
  then show "step j s =
              s\<lparr>mTaskQueue := mTaskQueue s @ [(j, c)],
                hPosted := hPosted s @ [(j, c)],
                threads := (threads s)[j := (threads s ! j)\<lparr>cur := rest\<rparr>]\<rparr>"
    by (simp add: step_def upd_def)
next
  fix j rest
  assume "j < length (threads s)" "cur (threads s ! j) = Signal # rest"
  then show "step j s =
              s\<lparr>signaled := True,
                threads := (threads s)[j := (threads s ! j)\<lparr>cur := rest\<rparr>]\<rparr>"
    by (simp add: step_def upd_def)
qed

text \<open>
  A task posted by thread 1 itself posts a task. When the mainloop thread executes it
  inside \<^verbatim>\<open>Process\<close>, the inner \<^verbatim>\<open>Post\<close> is a call on the mainloop thread. After
  three steps of the mainloop thread, alone or interleaved with steps of thread 1, the
  inner task is in the queue, the channel is signaled, no exception has been raised and
  the mainloop thread is past the call, still inside \<^verbatim>\<open>Process\<close>.
\<close>

theorem post_completes_witness:
  "cur (threads (exec until_nested nested_post) ! 0) = [Run (CallPost [Effect 2])]
   \<and> phase (threads (exec until_nested nested_post) ! 0) = ExecuteEach
   \<and> mTaskQueue (exec until_nested nested_post) = []
   \<and> mTaskQueue (exec [0, 0, 0] (exec until_nested nested_post)) = [(0, Plain [Effect 2])]
   \<and> signaled (exec [0, 0, 0] (exec until_nested nested_post))
   \<and> cur (threads (exec [0, 0, 0] (exec until_nested nested_post)) ! 0) = []
   \<and> phase (threads (exec [0, 0, 0] (exec until_nested nested_post)) ! 0) = ExecuteEach
   \<and> thrown (threads (exec [0, 0, 0] (exec until_nested nested_post)) ! 0) = 0
   \<and> cur (threads (exec [0, 1, 0, 1, 0] (exec until_nested nested_post)) ! 0) = []
   \<and> thrown (threads (exec [0, 1, 0, 1, 0] (exec until_nested nested_post)) ! 0) = 0
   \<and> (0, Plain [Effect 2]) \<in> set (hPosted (exec [0, 1, 0, 1, 0] (exec until_nested nested_post)))"
proof -
  let ?s = "exec until_nested nested_post"
  have h: "exec until_nested nested_post = exec until_nested
      (init (\<lambda>k. 3) [CallProcess ready, CallProcess ready] [[CallPost [CallPost [Effect 2]]]])"
    by (simp add: nested_post_def)
  have e: "cur (threads ?s ! 0) = [Run (CallPost [Effect 2])]"
    "phase (threads ?s ! 0) = ExecuteEach" "mTaskQueue ?s = []"
    "thrown (threads ?s ! 0) = 0" "length (threads ?s) = 2"
    by (simp_all add: run_simps nested_post_def until_nested_def ready_def)
  have l: "0 < length (threads ?s)" using e(5) by simp
  have n: "count_list [0, 1, 0, 1, 0 :: nat] 0 = 3" by simp
  have a: "exec [0, 0, 0] ?s =
              ?s\<lparr>mTaskQueue := mTaskQueue ?s @ [(0, Plain [Effect 2])],
                hPosted := hPosted ?s @ [(0, Plain [Effect 2])],
                signaled := True,
                threads := (threads ?s)[0 := (threads ?s ! 0)\<lparr>cur := []\<rparr>]\<rparr>"
    and b: "threads (exec [0, 1, 0, 1, 0] ?s) ! 0 = (threads ?s ! 0)\<lparr>cur := []\<rparr>"
    and c: "(0, Plain [Effect 2]) \<in> set (drop (length (hPosted ?s)) (hPosted (exec [0, 1, 0, 1, 0] ?s)))"
    using post_completes[OF h, THEN conjunct1, rule_format, OF l e(1)] n by blast+
  have c': "(0, Plain [Effect 2]) \<in> set (hPosted (exec [0, 1, 0, 1, 0] ?s))"
    using c by (rule in_set_dropD)
  show ?thesis unfolding a b using e l c' by simp
qed

section \<open>A task that throws in \<^verbatim>\<open>PostAndWait\<close>\<close>

text \<open>
  Claim C9. Let promise \<open>p\<close> belong to a \<^verbatim>\<open>PostAndWait\<close> call of thread \<open>i\<close> whose task
  \<open>aTask\<close> throws. Then in every reachable state the promise has no value and no
  thread has received a result from it; once the wrapper has been started on the
  mainloop thread, its throw is still ahead of the mainloop thread or an exception has
  left the mainloop thread; and once the calling thread is in \<^verbatim>\<open>get()\<close> its state never
  changes again, whatever the schedule: it is not released and no exception reaches it.
  While the wrapper is being executed the mainloop thread is inside \<^verbatim>\<open>Process\<close> with
  the throw ahead of the \<^verbatim>\<open>set_value\<close>, and its next step either goes on with the
  wrapper or is the exception leaving \<^verbatim>\<open>Process\<close>. The step of the throw leaves
  \<^verbatim>\<open>Process\<close>: the mainloop thread is back in its caller with one exception more, the
  rest of the wrapper and of the batch is gone, and nothing else has changed, neither a
  promise nor the record of any other thread. Every task that throws accounts for an
  exception of its own: the tasks that throw among those started are at most as many as
  the exceptions that have left the mainloop thread, plus the one whose throw is ahead.
\<close>

theorem throwing_task_blocks_caller:
  assumes "s = exec sched (init fds mprog wprogs)"
    and "p < length (hOwner s)" and "hOwner s ! p = (i, aTask, v)" and "Throw \<in> set aTask"
  shows "promises s ! p = None
       \<and> (\<forall>k < length (threads s). \<forall>r. (p, r) \<notin> set (results (threads s ! k)))
       \<and> ((i, Wrapper p aTask v) \<in> set (concat (hRuns s)) \<longrightarrow>
            Run Throw \<in> set (cur (threads s ! 0)) \<or> 0 < thrown (threads s ! 0))
       \<and> (\<forall>rest. cur (threads s ! i) = FutureGet p # rest \<longrightarrow>
            (\<forall>sched'. threads (exec sched' s) ! i = threads s ! i))
       \<and> (SetValue p v \<in> set (cur (threads s ! 0)) \<longrightarrow>
            phase (threads s ! 0) = ExecuteEach \<and> Run Throw \<in> set (cur (threads s ! 0))
          \<and> (SetValue p v \<in> set (cur (threads (step 0 s) ! 0))
             \<or> step 0 s =
                 s\<lparr>threads := (threads s)[0 := (threads s ! 0)
                    \<lparr>cur := [], phase := Idle, batch := [],
                     thrown := Suc (thrown (threads s ! 0))\<rparr>]\<rparr>))
       \<and> (\<forall>rest. cur (threads s ! 0) = Run Throw # rest \<and> SetValue p v \<in> set rest \<longrightarrow>
            step 0 s =
              s\<lparr>threads := (threads s)[0 := (threads s ! 0)
                 \<lparr>cur := [], phase := Idle, batch := [],
                  thrown := Suc (thrown (threads s ! 0))\<rparr>]\<rparr>)
       \<and> length (filter (\<lambda>x. Throw \<in> set (task_body (snd x))) (concat (hRuns s)))
            \<le> thrown (threads s ! 0)
               + (if Run Throw \<in> set (cur (threads s ! 0)) then 1 else 0)"
proof -
  have part1: "promises s ! p = None
       \<and> (\<forall>k < length (threads s). \<forall>r. (p, r) \<notin> set (results (threads s ! k)))
       \<and> ((i, Wrapper p aTask v) \<in> set (concat (hRuns s)) \<longrightarrow>
            Run Throw \<in> set (cur (threads s ! 0)) \<or> 0 < thrown (threads s ! 0))
       \<and> (\<forall>rest. cur (threads s ! i) = FutureGet p # rest \<longrightarrow>
            (\<forall>sched'. threads (exec sched' s) ! i = threads s ! i))"
  proof (intro conjI allI impI)
    have all: "wf s" "val_inv s" "throw_inv s"
      using throw_exec[of sched fds mprog wprogs] assms(1) by simp_all
    have th: "throws s p" using assms(3,4) by (simp add: throws_def)
    have len: "length (hOwner s) = length (promises s)" using all(1) by (simp add: wf_def)
    show none: "promises s ! p = None"
      using all(3) th assms(2) len by (auto simp: throw_inv_def)
    show "(p, r) \<notin> set (results (threads s ! k))" if "k < length (threads s)" for k r
      using all(2) that none by (auto simp: val_inv_def)
    show "Run Throw \<in> set (cur (threads s ! 0)) \<or> 0 < thrown (threads s ! 0)"
      if "(i, Wrapper p aTask v) \<in> set (concat (hRuns s))"
    proof -
      have "\<forall>j p b v. (j, Wrapper p b v) \<in> set (concat (hRuns s)) \<and> Throw \<in> set b \<longrightarrow>
          Run Throw \<in> set (cur (threads s ! 0)) \<or> 0 < thrown (threads s ! 0)"
        using all(3) unfolding throw_inv_def by (elim conjE)
      then show ?thesis using that assms(4)
        by (elim allE[where x=i] allE[where x=p] allE[where x=aTask] allE[where x=v]) simp
    qed
  next
    fix rest sched'
    assume c: "cur (threads s ! i) = FutureGet p # rest"
    show "threads (exec sched' s) ! i = threads s ! i"
    proof (induction sched' rule: rev_induct)
      case Nil
      show ?case by (simp add: exec_Nil)
    next
      case (snoc k sched')
      let ?t = "exec sched' s"
      have t: "wf ?t" "throw_inv ?t"
        using throw_exec[of "sched @ sched'" fds mprog wprogs] assms(1)
        by (simp_all add: reach_append)
      have o: "p < length (hOwner ?t)" "hOwner ?t ! p = (i, aTask, v)"
        using hOwner_exec_nth[OF assms(2), of sched'] assms(3) by simp_all
      then have "throws ?t p" using assms(4) by (simp add: throws_def)
      moreover have "length (hOwner ?t) = length (promises ?t)" using t(1) by (simp add: wf_def)
      ultimately have n: "p < length (promises ?t)" "promises ?t ! p = None"
        using t(2) o(1) by (auto simp: throw_inv_def)
      have "threads (step k ?t) ! i = threads ?t ! i"
      proof (cases "k = i")
        case True
        have "step i ?t = ?t" using c snoc n by (simp add: step_def)
        then show ?thesis using True by simp
      next
        case False
        then show ?thesis by (simp add: step_other)
      qed
      then show ?case using snoc by (simp add: exec_snoc)
    qed
  qed
  have all: "wf s" "throw_inv s"
    using throw_exec[of sched fds mprog wprogs] assms(1) by simp_all
  have ins: "inside_inv s" using inside_exec[of sched fds mprog wprogs] assms(1) by simp
  have th: "throws s p" using assms(3,4) by (simp add: throws_def)
  have ne: "0 < length (threads s)" using all(1) by (simp add: wf_def)
  have ok: "cur_ok (cur (threads s ! 0))" using wf_thread[OF all(1) ne] by (simp add: twf_def)
  have left: "step 0 s =
              s\<lparr>threads := (threads s)[0 := (threads s ! 0)
                 \<lparr>cur := [], phase := Idle, batch := [],
                  thrown := Suc (thrown (threads s ! 0))\<rparr>]\<rparr>"
    if c: "cur (threads s ! 0) = Run Throw # rest" and m: "SetValue p v \<in> set rest" for rest
  proof -
    have "is_SetValue (SetValue p v)" by simp
    then have "list_ex is_SetValue (cur (threads s ! 0))"
      using c m unfolding list_ex_iff by (metis list.set_intros(2))
    then have "phase (threads s ! 0) = ExecuteEach" using ins by (simp add: inside_inv_def)
    then show ?thesis using c ne by (simp add: step_def raise_def upd_def)
  qed
  have part2: "phase (threads s ! 0) = ExecuteEach \<and> Run Throw \<in> set (cur (threads s ! 0))
          \<and> (SetValue p v \<in> set (cur (threads (step 0 s) ! 0))
             \<or> step 0 s =
                 s\<lparr>threads := (threads s)[0 := (threads s ! 0)
                    \<lparr>cur := [], phase := Idle, batch := [],
                     thrown := Suc (thrown (threads s ! 0))\<rparr>]\<rparr>)"
    if m: "SetValue p v \<in> set (cur (threads s ! 0))"
  proof -
    have "is_SetValue (SetValue p v)" by simp
    then have "list_ex is_SetValue (cur (threads s ! 0))"
      using m unfolding list_ex_iff by blast
    then have ph: "phase (threads s ! 0) = ExecuteEach" using ins by (simp add: inside_inv_def)
    have rt: "Run Throw \<in> set (cur (threads s ! 0))"
      using all(2) m th ne by (auto simp: throw_inv_def)
    have "SetValue p v \<in> set (cur (threads (step 0 s) ! 0))
             \<or> step 0 s =
                 s\<lparr>threads := (threads s)[0 := (threads s ! 0)
                    \<lparr>cur := [], phase := Idle, batch := [],
                     thrown := Suc (thrown (threads s ! 0))\<rparr>]\<rparr>"
      using ne
    proof (cases rule: step_cases)
      case (throw rest)
      then have "SetValue p v \<in> set rest" using m by simp
      then show ?thesis using left[OF throw(1)] by simp
    next
      case (setvalue q w rest)
      then have "rest = []" using ok SetValue_last by metis
      then show ?thesis using rt setvalue by simp
    next
      case (setfail q w rest)
      then have "rest = []" using ok SetValue_last by metis
      then show ?thesis using rt setfail by simp
    qed (use m ne in \<open>auto simp: Post_def PostAndWait_def\<close>)
    then show ?thesis using ph rt by simp
  qed
  have part3: "length (filter (\<lambda>x. Throw \<in> set (task_body (snd x))) (concat (hRuns s)))
            \<le> thrown (threads s ! 0)
               + (if Run Throw \<in> set (cur (threads s ! 0)) then 1 else 0)"
    using exc_exec[of sched fds mprog wprogs] assms(1) by (simp add: exc_inv_def)
  have q1: "promises s ! p = None"
    and q2: "\<forall>k < length (threads s). \<forall>r. (p, r) \<notin> set (results (threads s ! k))"
    and q3: "(i, Wrapper p aTask v) \<in> set (concat (hRuns s)) \<longrightarrow>
            Run Throw \<in> set (cur (threads s ! 0)) \<or> 0 < thrown (threads s ! 0)"
    and q4: "\<forall>rest. cur (threads s ! i) = FutureGet p # rest \<longrightarrow>
            (\<forall>sched'. threads (exec sched' s) ! i = threads s ! i)"
    using part1[THEN conjunct1] part1[THEN conjunct2, THEN conjunct1]
      part1[THEN conjunct2, THEN conjunct2, THEN conjunct1]
      part1[THEN conjunct2, THEN conjunct2, THEN conjunct2] by this+
  have q5: "SetValue p v \<in> set (cur (threads s ! 0)) \<longrightarrow>
            phase (threads s ! 0) = ExecuteEach \<and> Run Throw \<in> set (cur (threads s ! 0))
          \<and> (SetValue p v \<in> set (cur (threads (step 0 s) ! 0))
             \<or> step 0 s =
                 s\<lparr>threads := (threads s)[0 := (threads s ! 0)
                    \<lparr>cur := [], phase := Idle, batch := [],
                     thrown := Suc (thrown (threads s ! 0))\<rparr>]\<rparr>)"
    by (rule impI) (rule part2)
  have q6: "\<forall>rest. cur (threads s ! 0) = Run Throw # rest \<and> SetValue p v \<in> set rest \<longrightarrow>
            step 0 s =
              s\<lparr>threads := (threads s)[0 := (threads s ! 0)
                 \<lparr>cur := [], phase := Idle, batch := [],
                  thrown := Suc (thrown (threads s ! 0))\<rparr>]\<rparr>"
    by (intro allI impI, elim conjE) (rule left)
  show ?thesis by (intro conjI) (rule q1 q2 q3 q4 q5 q6 part3)+
qed

text \<open>
  Thread 1 calls \<^verbatim>\<open>PostAndWait\<close> with a task that writes 7 and then throws. The
  mainloop thread's \<^verbatim>\<open>Process\<close> call executes the wrapper: the write happens, and at
  the throw the mainloop thread is inside \<^verbatim>\<open>Process\<close> with the \<^verbatim>\<open>set_value\<close> behind
  the throw. The step of the throw leaves \<^verbatim>\<open>Process\<close> with one exception, the promise
  stays without a value and thread 1 is untouched. Thread 1 is in \<^verbatim>\<open>get()\<close> and stays
  there when the mainloop thread calls \<^verbatim>\<open>Process\<close> again.
\<close>

theorem throwing_task_blocks_caller_witness:
  "hOwner (exec until_thrown ask_throwing) ! 0 = (1, [Effect 7, Throw], 42)
   \<and> promises (exec until_thrown ask_throwing) = [None]
   \<and> memory (exec until_thrown ask_throwing) = [7]
   \<and> concat (hRuns (exec until_thrown ask_throwing)) = [(1, Wrapper 0 [Effect 7, Throw] 42)]
   \<and> thrown (threads (exec until_thrown ask_throwing) ! 0) = 1
   \<and> thrown (threads (exec until_thrown ask_throwing) ! 1) = 0
   \<and> cur (threads (exec until_thrown ask_throwing) ! 1) = [FutureGet 0]
   \<and> threads (exec [1, 0, 0, 0, 0, 1] (exec until_thrown ask_throwing)) ! 1
       = threads (exec until_thrown ask_throwing) ! 1
   \<and> cur (threads (exec until_throw ask_throwing) ! 0) = [Run Throw, SetValue 0 42]
   \<and> phase (threads (exec until_throw ask_throwing) ! 0) = ExecuteEach
   \<and> thrown (threads (exec until_throw ask_throwing) ! 0) = 0
   \<and> memory (exec until_throw ask_throwing) = [7]
   \<and> phase (threads (step 0 (exec until_throw ask_throwing)) ! 0) = Idle
   \<and> cur (threads (step 0 (exec until_throw ask_throwing)) ! 0) = []
   \<and> thrown (threads (step 0 (exec until_throw ask_throwing)) ! 0) = 1
   \<and> promises (step 0 (exec until_throw ask_throwing)) = [None]
   \<and> threads (step 0 (exec until_throw ask_throwing)) ! 1
       = threads (exec until_throw ask_throwing) ! 1"
proof -
  let ?s = "exec until_throw ask_throwing"
  have h1: "exec until_thrown ask_throwing = exec until_thrown
      (init (\<lambda>k. 3) [CallProcess ready, CallProcess ready] [[CallPostAndWait [Effect 7, Throw] 42]])"
    and g1: "exec until_throw ask_throwing = exec until_throw
      (init (\<lambda>k. 3) [CallProcess ready, CallProcess ready] [[CallPostAndWait [Effect 7, Throw] 42]])"
    by (simp_all add: ask_throwing_def)
  have h2: "0 < length (hOwner (exec until_thrown ask_throwing))"
    and h3: "hOwner (exec until_thrown ask_throwing) ! 0 = (1, [Effect 7, Throw], 42)"
    and c: "cur (threads (exec until_thrown ask_throwing) ! 1) = FutureGet 0 # []"
    by (simp_all add: run_simps ask_throwing_def until_thrown_def ready_def)
  have g2: "0 < length (hOwner ?s)"
    and g3: "hOwner ?s ! 0 = (1, [Effect 7, Throw], 42)"
    and e: "cur (threads ?s ! 0) = Run Throw # [SetValue 0 42]"
      "phase (threads ?s ! 0) = ExecuteEach" "thrown (threads ?s ! 0) = 0" "memory ?s = [7]"
      "promises ?s = [None]" "length (threads ?s) = 2"
    by (simp_all add: run_simps ask_throwing_def until_throw_def ready_def)
  have h4: "Throw \<in> set [Effect 7, Throw :: int call]" by simp
  have d: "\<And>A B C D E F G. A \<and> B \<and> C \<and> D \<and> E \<and> F \<and> G \<Longrightarrow> A \<and> B \<and> C \<and> D"
    and f: "\<And>A B C D E F G. A \<and> B \<and> C \<and> D \<and> E \<and> F \<and> G \<Longrightarrow> F"
    by blast+
  have o: "hOwner (exec until_thrown ask_throwing) ! 0 = (1, [Effect 7, Throw], 42)
   \<and> promises (exec until_thrown ask_throwing) = [None]
   \<and> memory (exec until_thrown ask_throwing) = [7]
   \<and> concat (hRuns (exec until_thrown ask_throwing)) = [(1, Wrapper 0 [Effect 7, Throw] 42)]
   \<and> thrown (threads (exec until_thrown ask_throwing) ! 0) = 1
   \<and> thrown (threads (exec until_thrown ask_throwing) ! 1) = 0
   \<and> cur (threads (exec until_thrown ask_throwing) ! 1) = [FutureGet 0]
   \<and> threads (exec [1, 0, 0, 0, 0, 1] (exec until_thrown ask_throwing)) ! 1
       = threads (exec until_thrown ask_throwing) ! 1"
    using d[OF throwing_task_blocks_caller[OF h1 h2 h3 h4]] c h3
    by (simp add: run_simps ask_throwing_def until_thrown_def ready_def)
  have m: "SetValue 0 42 \<in> set [SetValue 0 (42 :: int)]" by simp
  have r: "step 0 ?s =
              ?s\<lparr>threads := (threads ?s)[0 := (threads ?s ! 0)
                 \<lparr>cur := [], phase := Idle, batch := [],
                  thrown := Suc (thrown (threads ?s ! 0))\<rparr>]\<rparr>"
    using f[OF throwing_task_blocks_caller[OF g1 g2 g3 h4], rule_format, of "[SetValue 0 42]"] e(1) m by blast
  have p: "phase (threads (step 0 ?s) ! 0) = Idle" "cur (threads (step 0 ?s) ! 0) = []"
    "thrown (threads (step 0 ?s) ! 0) = 1" "promises (step 0 ?s) = [None]"
    "threads (step 0 ?s) ! 1 = threads ?s ! 1"
    unfolding r using e by simp_all
  from o p e show ?thesis by simp
qed

section \<open>Tasks are executed in the order of the posts\<close>




section \<open>What a \<^verbatim>\<open>Process\<close> call executes\<close>




section \<open>Wrappers that are discarded, and calls from the call to the return\<close>

subsection \<open>Discarded wrappers\<close>


lemma sets_of_Post [simp]:
  "\<not> list_ex (sets_of p) (Post c)"
  "\<not> list_ex (sets_of p) (PostAndWait q a v)"
  by (simp_all add: Post_def PostAndWait_def)





subsection \<open>A \<^verbatim>\<open>PostAndWait\<close> call from the call to the return\<close>


lemma length_set_value [simp]: "length (set_value c ps) = length ps"
  by (cases c) simp_all

lemma length_set_values [simp]: "length (set_values q ps) = length ps"
  by (induction q arbitrary: ps rule: rev_induct) (simp_all add: set_values_def)



section \<open>The return of \<^verbatim>\<open>PostAndWait\<close>\<close>




end
